theory Spec2Isabelle
  imports Main "HOL-Library.Multiset"
begin

section \<open>Python strings\<close>

text \<open>
  A Python \<open>str\<close> is modelled as a \<open>string\<close> (a list of characters). The model covers
  ASCII text: the character classes below list the ASCII members of Python's classes
  (\<open>str.isspace\<close>, and \<open>\s\<close>, \<open>\w\<close>, \<open>\d\<close> of the \<open>re\<close> module).
\<close>

definition newline :: char where
  "newline = CHR 0x0A"

definition backtick :: char where
  "backtick = CHR 0x60"

definition quote1 :: char where
  "quote1 = CHR 0x27"

definition quote2 :: char where
  "quote2 = CHR 0x22"

definition is_digit :: "char \<Rightarrow> bool" where
  "is_digit c = (c \<in> set ''0123456789'')"

definition is_word :: "char \<Rightarrow> bool" where
  "is_word c =
     (c \<in> set ''abcdefghijklmnopqrstuvwxyzABCDEFGHIJKLMNOPQRSTUVWXYZ0123456789_'')"

definition is_space :: "char \<Rightarrow> bool" where
  "is_space c =
     (c \<in> set [CHR 0x20, CHR 0x09, CHR 0x0A, CHR 0x0B, CHR 0x0C, CHR 0x0D,
                 CHR 0x1C, CHR 0x1D, CHR 0x1E, CHR 0x1F])"

definition lower_char :: "char \<Rightarrow> char" where
  "lower_char c =
     (case map_of (zip ''ABCDEFGHIJKLMNOPQRSTUVWXYZ'' ''abcdefghijklmnopqrstuvwxyz'') c of
        Some d \<Rightarrow> d
      | None \<Rightarrow> c)"

definition lower :: "string \<Rightarrow> string" where
  "lower s = map lower_char s"

text \<open>\<open>s.startswith(p)\<close>, \<open>s.endswith(p)\<close> and \<open>sub in s\<close>.\<close>

fun startswith :: "string \<Rightarrow> string \<Rightarrow> bool" where
  "startswith s [] = True"
| "startswith [] (p # ps) = False"
| "startswith (c # cs) (p # ps) = (c = p \<and> startswith cs ps)"

definition endswith :: "string \<Rightarrow> string \<Rightarrow> bool" where
  "endswith s p = startswith (rev s) (rev p)"

fun contains :: "string \<Rightarrow> string \<Rightarrow> bool" where
  "contains sub [] = (sub = [])"
| "contains sub (c # cs) = (startswith (c # cs) sub \<or> contains sub cs)"

text \<open>\<open>s.split(d)\<close> for a one-character separator, and \<open>d.join(xs)\<close>.\<close>

fun split_on :: "char \<Rightarrow> string \<Rightarrow> string list" where
  "split_on d [] = [[]]"
| "split_on d (c # cs) =
     (if c = d then [] # split_on d cs
      else (case split_on d cs of [] \<Rightarrow> [[c]] | x # xs \<Rightarrow> (c # x) # xs))"

fun join :: "string \<Rightarrow> string list \<Rightarrow> string" where
  "join d [] = []"
| "join d [x] = x"
| "join d (x # y # ys) = x @ d @ join d (y # ys)"

text \<open>\<open>s.split('//')[0]\<close>: the text before the first \<open>//\<close>.\<close>

fun before_sep :: "string \<Rightarrow> string \<Rightarrow> string" where
  "before_sep sep [] = []"
| "before_sep sep (c # cs) = (if startswith (c # cs) sep then [] else c # before_sep sep cs)"

text \<open>\<open>s.strip()\<close>, and \<open>s.split()\<close> (the words between runs of whitespace).\<close>

definition strip :: "string \<Rightarrow> string" where
  "strip s = rev (dropWhile is_space (rev (dropWhile is_space s)))"

fun split_ws :: "string \<Rightarrow> string \<Rightarrow> string list" where
  "split_ws w [] = (if w = [] then [] else [w])"
| "split_ws w (c # cs) =
     (if is_space c then (if w = [] then split_ws [] cs else w # split_ws [] cs)
      else split_ws (w @ [c]) cs)"

text \<open>\<open>s.find(c)\<close> and \<open>s.rfind(c)\<close> for one character: an index, or \<open>-1\<close>.\<close>

fun find_from :: "nat \<Rightarrow> char \<Rightarrow> string \<Rightarrow> int" where
  "find_from i d [] = - 1"
| "find_from i d (c # cs) = (if c = d then int i else find_from (i + 1) d cs)"

definition find_char :: "char \<Rightarrow> string \<Rightarrow> int" where
  "find_char d s = find_from 0 d s"

definition rfind_char :: "char \<Rightarrow> string \<Rightarrow> int" where
  "rfind_char d s =
     (let i = find_char d (rev s) in if i = - 1 then - 1 else int (length s) - 1 - i)"

text \<open>\<open>s[i:j]\<close> for indices that are not negative.\<close>

definition slice :: "string \<Rightarrow> nat \<Rightarrow> nat \<Rightarrow> string" where
  "slice s i j = drop i (take j s)"

text \<open>\<open>s.replace(old, new)\<close>: every occurrence, left to right, without overlap.\<close>

function replace :: "string \<Rightarrow> string \<Rightarrow> string \<Rightarrow> string" where
  "replace old new s =
     (if old = [] then new @ concat (map (\<lambda>c. c # new) s)
      else (case s of
              [] \<Rightarrow> []
            | c # cs \<Rightarrow>
                if startswith s old then new @ replace old new (drop (length old) s)
                else c # replace old new cs))"
  by pat_completeness auto
termination
  by (relation "measure (\<lambda>(old, new, s). length s)") auto

text \<open>
  \<open>s.splitlines()\<close>: the lines of \<open>s\<close> without their terminators; a line ends at
  \<open>\n\<close>, \<open>\r\<close>, \<open>\r\n\<close>, \<open>\v\<close>, \<open>\f\<close>, \<open>\x1c\<close>, \<open>\x1d\<close> or \<open>\x1e\<close>, and a terminator at
  the very end opens no further line.
\<close>

definition is_linebreak :: "char \<Rightarrow> bool" where
  "is_linebreak c =
     (c \<in> set [CHR 0x0A, CHR 0x0D, CHR 0x0B, CHR 0x0C, CHR 0x1C, CHR 0x1D, CHR 0x1E])"

fun splitlines :: "string \<Rightarrow> string list" where
  "splitlines [] = []"
| "splitlines (c # cs) =
     (if is_linebreak c then
        [] # splitlines (if c = CHR 0x0D \<and> startswith cs [CHR 0x0A] then tl cs else cs)
      else (case splitlines cs of [] \<Rightarrow> [[c]] | x # xs \<Rightarrow> (c # x) # xs))"

text \<open>\<open>int(ds)\<close> for a string of decimal digits.\<close>

definition digit_val :: "char \<Rightarrow> nat" where
  "digit_val c =
     (case map_of (zip ''0123456789'' [0, 1, 2, 3, 4, 5, 6, 7, 8, 9]) c of
        Some n \<Rightarrow> n
      | None \<Rightarrow> 0)"

definition int_of_digits :: "string \<Rightarrow> nat" where
  "int_of_digits ds = foldl (\<lambda>n c. 10 * n + digit_val c) 0 ds"

text \<open>\<open>os.path.basename\<close> and the root part of \<open>os.path.splitext\<close> (POSIX).\<close>

definition basename :: "string \<Rightarrow> string" where
  "basename p = rev (takeWhile (\<lambda>c. c \<noteq> CHR ''/'') (rev p))"

definition splitext_root :: "string \<Rightarrow> string" where
  "splitext_root p =
     (let sep_index = rfind_char (CHR ''/'') p;
          dot_index = rfind_char (CHR ''.'') p
      in if dot_index > sep_index \<and>
            list_ex (\<lambda>c. c \<noteq> CHR ''.'') (slice p (nat (sep_index + 1)) (nat dot_index))
         then take (nat dot_index) p
         else p)"

section \<open>Regular expressions\<close>

text \<open>
  Python's \<open>re\<close> is a backtracking matcher: alternatives are tried left to right,
  \<open>*\<close>, \<open>+\<close> and \<open>?\<close> are greedy, and the first way of matching that succeeds is the
  match. \<open>rmatch r k st\<close> matches \<open>r\<close> at the state \<open>st\<close> and hands the state after
  the match to the continuation \<open>k\<close>; when \<open>k\<close> fails, the next way of matching \<open>r\<close>
  is tried. A state holds the character before the current position, the text from the
  current position on, and the groups captured so far (the latest capture first).
  An iteration of \<open>*\<close> has to consume a character; the loop body of every pattern of
  the program does.
\<close>

datatype re = Eps | Chr "char \<Rightarrow> bool" | Seq re re | Alt re re | Star re | Grp nat re
  | Bol | Eol | WordB

record mstate =
  prev :: "char option"
  rest :: string
  caps :: "(nat \<times> string) list"

definition at_boundary :: "mstate \<Rightarrow> bool" where
  "at_boundary st =
     ((case prev st of None \<Rightarrow> False | Some c \<Rightarrow> is_word c) \<noteq>
      (case rest st of [] \<Rightarrow> False | c # cs \<Rightarrow> is_word c))"

primrec star :: "nat \<Rightarrow> ((mstate \<Rightarrow> mstate option) \<Rightarrow> mstate \<Rightarrow> mstate option) \<Rightarrow>
    (mstate \<Rightarrow> mstate option) \<Rightarrow> mstate \<Rightarrow> mstate option" where
  "star 0 f k st = k st"
| "star (Suc n) f k st =
     (case f (\<lambda>st'. if length (rest st') < length (rest st) then star n f k st' else None) st of
        Some r \<Rightarrow> Some r
      | None \<Rightarrow> k st)"

primrec rmatch :: "re \<Rightarrow> (mstate \<Rightarrow> mstate option) \<Rightarrow> mstate \<Rightarrow> mstate option" where
  "rmatch Eps k st = k st"
| "rmatch (Chr P) k st =
     (case rest st of
        [] \<Rightarrow> None
      | c # cs \<Rightarrow> if P c then k (st\<lparr>prev := Some c, rest := cs\<rparr>) else None)"
| "rmatch (Seq a b) k st = rmatch a (rmatch b k) st"
| "rmatch (Alt a b) k st =
     (case rmatch a k st of Some r \<Rightarrow> Some r | None \<Rightarrow> rmatch b k st)"
| "rmatch (Star a) k st = star (length (rest st)) (rmatch a) k st"
| "rmatch (Grp i a) k st =
     rmatch a
       (\<lambda>st'. k (st'\<lparr>caps := (i, take (length (rest st) - length (rest st')) (rest st)) # caps st'\<rparr>))
       st"
| "rmatch Bol k st = (if prev st = None then k st else None)"
| "rmatch Eol k st = (if rest st = [] \<or> rest st = [newline] then k st else None)"
| "rmatch WordB k st = (if at_boundary st then k st else None)"

definition Plus :: "re \<Rightarrow> re" where
  "Plus r = Seq r (Star r)"

definition Opt :: "re \<Rightarrow> re" where
  "Opt r = Alt r Eps"

definition Lit :: "string \<Rightarrow> re" where
  "Lit s = foldr (\<lambda>c r. Seq (Chr (\<lambda>x. x = c)) r) s Eps"

definition Lit_ci :: "string \<Rightarrow> re" where
  "Lit_ci s = foldr (\<lambda>c r. Seq (Chr (\<lambda>x. lower_char x = lower_char c)) r) s Eps"

definition seqs :: "re list \<Rightarrow> re" where
  "seqs rs = foldr Seq rs Eps"

definition alts :: "re list \<Rightarrow> re" where
  "alts rs = (case rs of [] \<Rightarrow> Eps | _ \<Rightarrow> foldr Alt (butlast rs) (last rs))"

text \<open>
  \<open>re.match\<close> matches at the start of the string, \<open>re.search\<close> at the first position
  where a match exists, \<open>re.finditer\<close> yields the successive matches without overlap,
  and \<open>re.sub\<close> replaces each of them. \<open>group m i\<close> is \<open>m.group(i)\<close> (\<open>None\<close> for a
  group that took no part in the match), and \<open>rest m\<close> is the text from \<open>m.end()\<close> on.
\<close>

definition re_match :: "re \<Rightarrow> string \<Rightarrow> mstate option" where
  "re_match r s = rmatch r Some \<lparr>prev = None, rest = s, caps = []\<rparr>"

fun search_from :: "re \<Rightarrow> char option \<Rightarrow> string \<Rightarrow> mstate option" where
  "search_from r p [] = rmatch r Some \<lparr>prev = p, rest = [], caps = []\<rparr>"
| "search_from r p (c # cs) =
     (case rmatch r Some \<lparr>prev = p, rest = c # cs, caps = []\<rparr> of
        Some m \<Rightarrow> Some m
      | None \<Rightarrow> search_from r (Some c) cs)"

definition re_search :: "re \<Rightarrow> string \<Rightarrow> mstate option" where
  "re_search r s = search_from r None s"

definition group :: "mstate \<Rightarrow> nat \<Rightarrow> string option" where
  "group m i = map_of (caps m) i"

function finditer_from :: "re \<Rightarrow> char option \<Rightarrow> string \<Rightarrow> mstate list" where
  "finditer_from r p s =
     (case search_from r p s of
        None \<Rightarrow> []
      | Some m \<Rightarrow>
          m # (if length (rest m) < length s then finditer_from r (prev m) (rest m)
               else (case s of [] \<Rightarrow> [] | c # cs \<Rightarrow> finditer_from r (Some c) cs)))"
  by pat_completeness auto
termination
  by (relation "measure (\<lambda>(r, p, s). length s)") auto

definition re_finditer :: "re \<Rightarrow> string \<Rightarrow> mstate list" where
  "re_finditer r s = finditer_from r None s"

function sub_from :: "re \<Rightarrow> (mstate \<Rightarrow> string) \<Rightarrow> char option \<Rightarrow> string \<Rightarrow> string" where
  "sub_from r repl p s =
     (case rmatch r Some \<lparr>prev = p, rest = s, caps = []\<rparr> of
        Some m \<Rightarrow>
          (if length (rest m) < length s then repl m @ sub_from r repl (prev m) (rest m)
           else (case s of [] \<Rightarrow> repl m | c # cs \<Rightarrow> repl m @ c # sub_from r repl (Some c) cs))
      | None \<Rightarrow> (case s of [] \<Rightarrow> [] | c # cs \<Rightarrow> c # sub_from r repl (Some c) cs))"
  by pat_completeness auto
termination
  by (relation "measure (\<lambda>(r, repl, p, s). length s)") auto

definition re_sub :: "re \<Rightarrow> (mstate \<Rightarrow> string) \<Rightarrow> string \<Rightarrow> string" where
  "re_sub r repl s = sub_from r repl None s"

declare replace.simps [simp del] finditer_from.simps [simp del] sub_from.simps [simp del]

section \<open>Name normalizer: \<open>prettify_name\<close>\<close>

text \<open>\<open>fp_map.get((e, m), f"e{e}_m{m}")\<close>.\<close>

definition fp_map_get :: "string \<Rightarrow> string \<Rightarrow> string" where
  "fp_map_get e m =
     (if (e, m) = (''5'', ''10'') then ''FP16''
      else if (e, m) = (''8'', ''23'') then ''FP32''
      else if (e, m) = (''8'', ''24'') then ''FP32''
      else if (e, m) = (''11'', ''52'') then ''FP64''
      else if (e, m) = (''11'', ''53'') then ''FP64''
      else ''e'' @ e @ ''_m'' @ m)"

text \<open>The patterns of \<open>prettify_name\<close>, in the order of the source.\<close>

definition cfg_re :: re where
  "cfg_re = seqs [Lit ''CFG_FP_'', Grp 1 (Plus (Chr is_word)), Lit ''_'',
                  Grp 2 (Plus (Chr is_digit)), Lit ''_'', Grp 3 (Plus (Chr is_digit))]"

definition hardfloat_re :: re where
  "hardfloat_re = seqs [Lit ''FP'', Grp 1 (Plus (Chr is_word)), Lit ''_'',
                        Grp 2 (Plus (Chr is_digit)), Lit ''_'', Grp 3 (Plus (Chr is_digit))]"

definition openfloat_re :: re where
  "openfloat_re = seqs [Lit ''FP_'', Grp 1 (Plus (Chr is_word)), Lit ''_'',
                        Grp 2 (Plus (Chr is_digit)), Lit ''_'', Grp 3 (Plus (Chr is_digit))]"

definition openfloat_div_re :: re where
  "openfloat_div_re = seqs [Lit ''FP_'', Grp 1 (Plus (Chr is_word)), Lit ''_'',
                            Grp 2 (Plus (Chr is_digit)), Lit ''_'', Grp 3 (Plus (Chr is_digit)),
                            Lit ''_'', Grp 4 (Plus (Chr is_digit))]"

definition rial_re :: re where
  "rial_re = seqs [Lit ''Rial'', Grp 1 (Plus (Chr is_word)),
                   Grp 2 (Seq (Lit ''FP'') (Plus (Chr is_digit)))]"

definition rial_em_re :: re where
  "rial_em_re =
     seqs [Grp 1 (Seq (Lit ''Rial'') (Plus (Chr is_word))),
           Grp 2 (seqs [Lit ''_e'', Grp 3 (Plus (Chr is_digit)), Lit ''_m'',
                        Grp 4 (Plus (Chr is_digit)), Lit ''_s'', Plus (Chr is_digit)])]"

definition rial_phase_re :: re where
  "rial_phase_re =
     seqs [Grp 1 (seqs [Lit ''Rial'', Plus (Chr is_word), Lit ''Phase1'', Plus (Chr is_word),
                        Lit ''Phase2'', Plus (Chr is_word)]),
           Grp 2 (seqs [Lit ''_e'', Grp 3 (Plus (Chr is_digit)), Lit ''_m'',
                        Grp 4 (Plus (Chr is_digit)), Lit ''_s'', Plus (Chr is_digit)])]"

text \<open>
  A group that took part in a match is present; \<open>grp m i\<close> reads it. The three
  \<open>if bits == ...\<close> chains return for 16, 32 and 64 and otherwise fall through to the
  next pattern, which \<open>bits_label\<close> models with \<open>None\<close>.
\<close>

definition grp :: "mstate \<Rightarrow> nat \<Rightarrow> string" where
  "grp m i = (case group m i of Some s \<Rightarrow> s | None \<Rightarrow> [])"

definition bits_label :: "string \<Rightarrow> string \<Rightarrow> string \<Rightarrow> string option" where
  "bits_label lib op bits =
     (if bits = ''16'' then Some (lib @ op @ ''_FP16'')
      else if bits = ''32'' then Some (lib @ op @ ''_FP32'')
      else if bits = ''64'' then Some (lib @ op @ ''_FP64'')
      else None)"

definition prettify_tail :: "string \<Rightarrow> string" where
  "prettify_tail name0 =
     (let name = replace ''ReciprocalATan2Phase1ATan2Phase2'' ''Atan2'' name0;
          name = replace ''SqrtACosPhase1ACosPhase2'' ''Acos'' name
      in case re_match rial_em_re name of
           Some m \<Rightarrow> grp m 1 @ ''_'' @ fp_map_get (grp m 3) (grp m 4)
         | None \<Rightarrow>
             (case re_match rial_phase_re name of
                Some m \<Rightarrow> grp m 1 @ ''_'' @ fp_map_get (grp m 3) (grp m 4)
              | None \<Rightarrow> name))"

definition prettify_rial :: "string \<Rightarrow> string" where
  "prettify_rial name =
     (case re_match rial_re name of
        Some m \<Rightarrow> ''Rial'' @ grp m 1 @ ''_'' @ grp m 2
      | None \<Rightarrow> prettify_tail name)"

definition prettify_openfloat_div :: "string \<Rightarrow> string" where
  "prettify_openfloat_div name =
     (case re_match openfloat_div_re name of
        Some m \<Rightarrow>
          (case bits_label ''OpenFloat'' (grp m 1) (grp m 2) of
             Some label \<Rightarrow> label
           | None \<Rightarrow> prettify_rial name)
      | None \<Rightarrow> prettify_rial name)"

definition prettify_openfloat :: "string \<Rightarrow> string" where
  "prettify_openfloat name =
     (case re_match openfloat_re name of
        Some m \<Rightarrow>
          (case bits_label ''OpenFloat'' (grp m 1) (grp m 2) of
             Some label \<Rightarrow> label
           | None \<Rightarrow> prettify_openfloat_div name)
      | None \<Rightarrow> prettify_openfloat_div name)"

definition prettify_hardfloat :: "string \<Rightarrow> string" where
  "prettify_hardfloat name =
     (case re_match hardfloat_re name of
        Some m \<Rightarrow> ''HardFloat'' @ grp m 1 @ ''_'' @ fp_map_get (grp m 2) (grp m 3)
      | None \<Rightarrow> prettify_openfloat name)"

definition prettify_name :: "string \<Rightarrow> string" where
  "prettify_name filename =
     (let name = splitext_root filename
      in if startswith name ''FLOPCO_FP'' then name
         else (case re_match cfg_re name of
                 Some m \<Rightarrow>
                   (case bits_label ''CFG'' (grp m 1) (grp m 2) of
                      Some label \<Rightarrow> label
                    | None \<Rightarrow> prettify_hardfloat name)
               | None \<Rightarrow> prettify_hardfloat name))"

text \<open>
  The function is declared under \<open>@lru_cache(maxsize=CACHE_SIZE)\<close>: \<open>prettify_name\<close>
  above is its body, and a call goes through a cache of the results of the \<open>CACHE_SIZE\<close>
  most recently used arguments, the most recent first. A hit returns the stored result
  and moves its entry to the front; a miss runs the body, stores the result at the front
  and drops the least recently used entry when the cache is full.
\<close>

definition CACHE_SIZE :: nat where
  "CACHE_SIZE = 128"

type_synonym cache = "(string \<times> string) list"

definition prettify_name_cached :: "cache \<Rightarrow> string \<Rightarrow> string \<times> cache" where
  "prettify_name_cached cache filename =
     (case map_of cache filename of
        Some result \<Rightarrow> (result, (filename, result) # filter (\<lambda>kv. fst kv \<noteq> filename) cache)
      | None \<Rightarrow>
          (let result = prettify_name filename
           in (result, take CACHE_SIZE ((filename, result) # cache))))"

section \<open>Source rewriter: \<open>preprocess_sv_file\<close>\<close>

subsection \<open>Stage 1: the \<open>automatic\<close> keyword\<close>

definition automatic_type_re :: re where
  "automatic_type_re =
     seqs [WordB, Lit ''automatic'', Plus (Chr is_space),
           Grp 1 (alts (map Lit [''logic'', ''reg'', ''wire'', ''integer'', ''real'', ''time'',
             ''int'', ''bit'', ''byte'', ''shortint'', ''longint'', ''shortreal'', ''string'',
             ''chandle'', ''event'', ''struct'', ''union'', ''enum'', ''class'', ''interface'',
             ''modport'', ''package'', ''program'', ''task'', ''function''])),
           Plus (Chr is_space)]"

definition automatic_re :: re where
  "automatic_re = seqs [WordB, Lit ''automatic'', Plus (Chr is_space)]"

definition remove_automatic :: "string \<Rightarrow> string" where
  "remove_automatic content =
     join [newline]
       (map (\<lambda>line. re_sub automatic_re (\<lambda>m. [])
                       (re_sub automatic_type_re (\<lambda>m. grp m 1 @ '' '') line))
            (split_on newline content))"

subsection \<open>Stage 2: includes of verification files\<close>

definition is_quote :: "char \<Rightarrow> bool" where
  "is_quote c = (c = quote2 \<or> c = quote1)"

definition include_layers_re :: re where
  "include_layers_re =
     seqs [Star (Chr (\<lambda>c. is_space c \<and> c \<noteq> newline)), Lit (backtick # ''include''),
           Plus (Chr is_space), Chr is_quote, Star (Chr (\<lambda>c. \<not> is_quote c)), Lit ''layers-'',
           Star (Chr (\<lambda>c. \<not> is_quote c)), Chr is_quote, Star (Chr (\<lambda>c. c \<noteq> newline)),
           Opt (Chr (\<lambda>c. c = newline))]"

definition include_verification_re :: re where
  "include_verification_re =
     seqs [Star (Chr (\<lambda>c. is_space c \<and> c \<noteq> newline)), Lit_ci (backtick # ''include''),
           Plus (Chr is_space), Chr is_quote, Star (Chr (\<lambda>c. \<not> is_quote c)),
           Lit_ci ''verification'', Star (Chr (\<lambda>c. \<not> is_quote c)), Chr is_quote,
           Star (Chr (\<lambda>c. c \<noteq> newline)), Opt (Chr (\<lambda>c. c = newline))]"

definition is_verification_include :: "string \<Rightarrow> bool" where
  "is_verification_include line =
     (contains (backtick # ''include'') line \<and>
      (contains ''layers-'' (lower line) \<or> contains ''verification'' (lower line)))"

definition remove_includes :: "string \<Rightarrow> string" where
  "remove_includes content =
     (let content = join [newline]
            (filter (\<lambda>line. \<not> is_verification_include line) (split_on newline content));
          content = re_sub include_layers_re (\<lambda>m. []) content
      in re_sub include_verification_re (\<lambda>m. []) content)"

subsection \<open>Stage 3: verification sections\<close>

fun skip_sections :: "bool \<Rightarrow> string list \<Rightarrow> string list" where
  "skip_sections skip_verification [] = []"
| "skip_sections skip_verification (line # ls) =
     (let skip = (skip_verification \<or> contains (''FILE '' @ quote2 # ''verification/'') line \<or>
                  contains (''FILE '' @ quote2 # ''layers-'') line)
      in if \<not> skip then line # skip_sections skip ls
         else if strip line = [] then skip_sections False ls
         else skip_sections skip ls)"

definition remove_sections :: "string \<Rightarrow> string" where
  "remove_sections content = join [newline] (skip_sections False (split_on newline content))"

subsection \<open>Stage 4: guard idioms\<close>

definition layers_guard_re :: re where
  "layers_guard_re =
     seqs [Lit (backtick # ''ifndef''), Plus (Chr is_space), Lit ''layers_'',
           Plus (Chr (\<lambda>c. c \<noteq> newline)), Lit [newline], Star (Chr is_space),
           Lit (backtick # ''define''), Plus (Chr (\<lambda>c. c \<noteq> newline)), Lit [newline],
           Star (Chr is_space), Lit (backtick # ''endif''), Star (Chr (\<lambda>c. c \<noteq> newline)),
           Lit [newline]]"

definition empty_guard_re :: re where
  "empty_guard_re =
     seqs [Lit (backtick # ''ifndef''), Plus (Chr is_space), Plus (Chr is_word),
           Star (Chr is_space), Lit [newline], Star (Chr is_space),
           Lit (backtick # ''define''), Plus (Chr is_space), Plus (Chr is_word),
           Star (Chr is_space), Lit [newline], Star (Chr is_space),
           Lit (backtick # ''endif''), Star (Chr (\<lambda>c. c \<noteq> newline)), Lit [newline]]"

definition remove_guards :: "string \<Rightarrow> string" where
  "remove_guards content =
     re_sub empty_guard_re (\<lambda>m. []) (re_sub layers_guard_re (\<lambda>m. []) content)"

subsection \<open>Stage 5: blocks guarded by \<open>ENABLE_INITIAL_REG_\<close>\<close>

definition ifdef_marker_re :: re where
  "ifdef_marker_re =
     seqs [Lit (backtick # ''ifdef''), Plus (Chr is_space), Lit ''ENABLE_INITIAL_REG_'']"

definition ifndef_marker_re :: re where
  "ifndef_marker_re =
     seqs [Lit (backtick # ''ifndef''), Plus (Chr is_space), Lit ''ENABLE_INITIAL_REG_'']"

definition endif_marker_re :: re where
  "endif_marker_re =
     seqs [Lit (backtick # ''endif''), Star (Chr (\<lambda>c. c \<noteq> newline)),
           Lit ''ENABLE_INITIAL_REG_'']"

definition cond_open_re :: re where
  "cond_open_re = seqs [Lit [backtick], Alt (Lit ''ifdef'') (Lit ''ifndef''), WordB]"

definition cond_close_re :: re where
  "cond_close_re = seqs [Lit (backtick # ''endif''), WordB]"

definition found :: "re \<Rightarrow> string \<Rightarrow> bool" where
  "found r s = (re_search r s \<noteq> None)"

text \<open>
  One iteration of the loop over the lines: the state is \<open>skip_depth\<close> and the list
  \<open>cleaned\<close>; every \<open>continue\<close> of the source is a branch that leaves \<open>cleaned\<close> as it is.
\<close>

fun initial_reg_step :: "int \<times> string list \<Rightarrow> string \<Rightarrow> int \<times> string list" where
  "initial_reg_step (skip_depth, cleaned) line =
     (if contains ''ENABLE_INITIAL_REG_'' line \<and> found ifdef_marker_re line
        then (skip_depth + 1, cleaned)
      else if contains ''ENABLE_INITIAL_REG_'' line \<and> found ifndef_marker_re line
        then (1, cleaned)
      else if contains ''ENABLE_INITIAL_REG_'' line \<and> found endif_marker_re line
        then (skip_depth - 1, cleaned)
      else if skip_depth > 0 then
        (if found cond_open_re line then (skip_depth + 1, cleaned)
         else if found cond_close_re line then (skip_depth - 1, cleaned)
         else (skip_depth, cleaned))
      else (skip_depth, cleaned @ [line]))"

definition initial_reg_pass :: "string list \<Rightarrow> int \<times> string list" where
  "initial_reg_pass lines = foldl initial_reg_step (0, []) lines"

definition remove_initial_reg :: "string \<Rightarrow> string" where
  "remove_initial_reg content = join [newline] (snd (initial_reg_pass (split_on newline content)))"

subsection \<open>Stage 6: hoisting declarations out of \<open>always\<close> blocks\<close>

definition always_re :: re where
  "always_re =
     seqs [Bol, Grp 1 (Star (Chr is_space)), Lit ''always'', Plus (Chr is_space), Lit ''@'',
           Star (Chr is_space), Lit ''('', Plus (Chr (\<lambda>c. c \<noteq> CHR '')'')), Lit '')'',
           Plus (Chr is_space), Lit ''begin'', WordB]"

definition begin_re :: re where
  "begin_re = seqs [WordB, Lit ''begin'', WordB]"

definition end_re :: re where
  "end_re = seqs [WordB, Lit ''end'', WordB]"

definition end_keyword_re :: re where
  "end_keyword_re =
     seqs [WordB, Lit ''end'',
           alts (map Lit [''endmodule'', ''function'', ''case'', ''task'', ''primitive'',
                          ''generate'']),
           WordB]"

definition logic_re :: re where
  "logic_re =
     seqs [Bol, Grp 1 (Star (Chr is_space)), Lit ''logic'', Plus (Chr is_space),
           Opt (Grp 2 (seqs [Lit ''['', Plus (Chr (\<lambda>c. c \<noteq> CHR '']'')), Lit '']'',
                             Plus (Chr is_space)])),
           Grp 3 (Plus (Chr is_word)), Star (Chr is_space), Lit ''='', Star (Chr is_space),
           Grp 4 (Star (Chr (\<lambda>c. c \<noteq> newline))), Eol]"

text \<open>
  The statement of a declaration runs on over the following lines until its text after
  the \<open>=\<close> holds a \<open>;\<close> or the lines end: \<open>gather rhs ls\<close> returns the lines taken
  and the lines left.
\<close>

fun gather :: "string \<Rightarrow> string list \<Rightarrow> string list \<times> string list" where
  "gather rhs [] = ([], [])"
| "gather rhs (l # ls) =
     (if CHR '';'' \<in> set rhs then ([], l # ls)
      else (case gather (rhs @ newline # l) ls of (stmt, left) \<Rightarrow> (l # stmt, left)))"

text \<open>
  The \<open>wire\<close> line for a statement \<open>full\<close>, when it has both a \<open>=\<close> and a \<open>;\<close>: the text
  between the first \<open>=\<close> and the last \<open>;\<close>, stripped, with every run of whitespace
  collapsed to one blank.
\<close>

definition wire_of :: "string \<Rightarrow> string \<Rightarrow> string \<Rightarrow> string \<Rightarrow> string option" where
  "wire_of indent typ name full =
     (let eq = find_char (CHR ''='') full;
          semi = rfind_char (CHR '';'') full
      in if eq \<noteq> - 1 \<and> semi \<noteq> - 1 then
           Some (indent @ ''wire '' @ typ @ name @ '' = '' @
                 join '' '' (split_ws [] (strip (slice full (nat (eq + 1)) (nat semi)))) @ '';'')
         else None)"

text \<open>\<open>out.insert(always_start + idx, w)\<close> for each hoisted \<open>w\<close>, in order.\<close>

definition list_insert :: "nat \<Rightarrow> 'a \<Rightarrow> 'a list \<Rightarrow> 'a list" where
  "list_insert i x xs = take i xs @ x # drop i xs"

fun insert_hoisted :: "nat \<Rightarrow> string list \<Rightarrow> string list \<Rightarrow> string list" where
  "insert_hoisted k [] out = out"
| "insert_hoisted k (w # ws) out = insert_hoisted (k + 1) ws (list_insert k w out)"

lemma gather_length: "length (snd (gather rhs ls)) \<le> length ls"
  by (induction rhs ls rule: gather.induct) (auto split: prod.splits)

text \<open>
  What the inner loop computes from the current line \<open>cur\<close>: the text before a
  \<open>//\<close> comment, the depth after a \<open>begin\<close> in it, and whether it holds an \<open>end\<close>
  that is counted.
\<close>

definition depth_after_begin :: "int \<Rightarrow> string \<Rightarrow> int" where
  "depth_after_begin depth cur =
     (if found begin_re (before_sep ''//'' cur) then depth + 1 else depth)"

definition has_end :: "string \<Rightarrow> bool" where
  "has_end cur =
     (found end_re (before_sep ''//'' cur) \<and> \<not> found end_keyword_re (before_sep ''//'' cur))"

text \<open>
  The statement of a declaration matched by \<open>m\<close> on the line \<open>cur\<close>: the \<open>wire\<close> line
  to hoist, if any, and the lines left after the statement.
\<close>

definition take_statement :: "string \<Rightarrow> mstate \<Rightarrow> string \<Rightarrow> string list \<Rightarrow> string option \<times> string list" where
  "take_statement indent m cur ls =
     (case gather (grp m 4) ls of
        (stmt, left) \<Rightarrow>
          (wire_of indent (grp m 2) (grp m 3) (join [newline] (cur # stmt)), left))"

lemma take_statement_length:
  "(wire, left) = take_statement indent m cur ls \<Longrightarrow> length left < Suc (length ls)"
  using gather_length [of "grp m 4" ls]
  by (auto simp: take_statement_def split: prod.splits)

text \<open>
  The inner loop over the lines of one block. Its state is the lines from \<open>lines[i]\<close> on,
  \<open>depth\<close>, \<open>hoisted\<close> and \<open>out\<close>; it returns the lines left and \<open>out\<close> when \<open>depth\<close>
  is back to zero or the lines end.
\<close>

function scan_block :: "string \<Rightarrow> nat \<Rightarrow> string list \<Rightarrow> int \<Rightarrow> string list \<Rightarrow> string list \<Rightarrow>
    string list \<times> string list" where
  "scan_block indent always_start [] depth hoisted out = ([], out)"
| "scan_block indent always_start (cur # ls) depth hoisted out =
     (if \<not> depth > 0 then (cur # ls, out)
      else if has_end cur then
        (if depth_after_begin depth cur - 1 = 0
         then (ls, insert_hoisted always_start hoisted out @ [cur])
         else scan_block indent always_start ls (depth_after_begin depth cur - 1) hoisted
                (out @ [cur]))
      else
        (case re_match logic_re cur of
           Some m \<Rightarrow>
             (if depth_after_begin depth cur \<ge> 1 then
                (case take_statement indent m cur ls of
                   (wire, left) \<Rightarrow>
                     scan_block indent always_start left (depth_after_begin depth cur)
                       (case wire of Some w \<Rightarrow> hoisted @ [w] | None \<Rightarrow> hoisted) out)
              else scan_block indent always_start ls (depth_after_begin depth cur) hoisted
                     (out @ [cur]))
         | None \<Rightarrow>
             scan_block indent always_start ls (depth_after_begin depth cur) hoisted
               (out @ [cur])))"
  by pat_completeness auto
termination
proof (relation "measure (\<lambda>(indent, always_start, ls, depth, hoisted, out). length ls)")
  show "wf (measure (\<lambda>(indent, always_start, ls, depth, hoisted, out). length ls))"
    by simp
qed (auto intro: take_statement_length)

lemma scan_block_length:
  "length (fst (scan_block indent always_start ls depth hoisted out)) \<le> length ls"
proof (induction indent always_start ls depth hoisted out rule: scan_block.induct)
  case (1 indent always_start depth hoisted out)
  show ?case by simp
next
  case (2 indent always_start cur ls depth hoisted out)
  show ?case
  proof (cases "depth > 0")
    case False
    then show ?thesis by simp
  next
    case pos: True
    show ?thesis
    proof (cases "has_end cur")
      case True
      with pos "2.IH" show ?thesis by (simp add: le_SucI)
    next
      case noend: False
      show ?thesis
      proof (cases "re_match logic_re cur")
        case None
        with pos noend "2.IH" show ?thesis by (simp add: le_SucI)
      next
        case (Some m)
        show ?thesis
        proof (cases "depth_after_begin depth cur \<ge> 1")
          case False
          with pos noend Some "2.IH" show ?thesis by (simp add: le_SucI)
        next
          case True
          obtain wire left where ts: "take_statement indent m cur ls = (wire, left)"
            by (cases "take_statement indent m cur ls")
          from ts have "length left \<le> length ls"
            using take_statement_length [of wire left indent m cur ls] by simp
          moreover have "length (fst (scan_block indent always_start left (depth_after_begin depth cur)
                  (case wire of Some w \<Rightarrow> hoisted @ [w] | None \<Rightarrow> hoisted) out)) \<le> length left"
            using "2.IH" pos noend Some True ts by simp
          ultimately show ?thesis
            using pos noend Some True ts by (simp add: le_SucI)
        qed
      qed
    qed
  qed
qed

text \<open>The outer loop over the lines, and the stage.\<close>

function hoist_lines :: "string list \<Rightarrow> string list \<Rightarrow> string list" where
  "hoist_lines [] out = out"
| "hoist_lines (line # ls) out =
     (case re_match always_re line of
        Some m \<Rightarrow>
          (case scan_block (grp m 1) (length out) ls 1 [] (out @ [line]) of
             (left, out') \<Rightarrow> hoist_lines left out')
      | None \<Rightarrow> hoist_lines ls (out @ [line]))"
  by pat_completeness auto
termination
proof (relation "measure (\<lambda>(ls, out). length ls)")
  show "wf (measure (\<lambda>(ls, out). length ls))"
    by simp
qed (auto simp: case_prod_beta less_Suc_eq_le scan_block_length)

definition hoist_logic_from_always :: "string \<Rightarrow> string" where
  "hoist_logic_from_always content = join [newline] (hoist_lines (split_on newline content) [])"

subsection \<open>The whole rewriting, and \<open>preprocess_sv_file\<close>\<close>

definition rewrite_text :: "string \<Rightarrow> string" where
  "rewrite_text content =
     replace (quote1 # ''{'') ''{''
       (hoist_logic_from_always
         (remove_initial_reg
           (remove_guards
             (remove_sections
               (remove_includes
                 (remove_automatic content))))))"

text \<open>
  The program reads and writes files, runs the tool and logs; the model takes what the
  outside world answers as an environment and returns, next to each result, the events
  the call caused, in order. \<open>read_file\<close> is \<open>None\<close> when opening or reading the file
  raises, \<open>write_ok\<close> tells whether a file can be written, \<open>run_tool\<close> is what
  \<open>subprocess.run\<close> does for a command line, and \<open>log_ok\<close> tells whether the tool's
  output can be appended to the log file. A log event carries the level and the fixed
  part of the message with the file name; numbers and tracebacks in messages are left
  out.
\<close>

datatype tool_outcome =
    TimeoutExpired
  | ToolNotFound
  | OtherError
  | Completed string string int

datatype level = Debug | Info | Warning | Error

datatype event =
    Log level string
  | WriteFile string string
  | RunTool "string list"
  | AppendLog string

record env =
  read_file :: "string \<Rightarrow> string option"
  write_ok :: "string \<Rightarrow> bool"
  run_tool :: "string list \<Rightarrow> tool_outcome"
  log_ok :: bool
  abspath :: "string \<Rightarrow> string"
  pid :: string

definition preprocess_sv_file :: "env \<Rightarrow> string \<Rightarrow> string option \<times> event list" where
  "preprocess_sv_file e filename =
     (case read_file e filename of
        Some content \<Rightarrow> (Some (rewrite_text content), [])
      | None \<Rightarrow> (None, [Log Error (''Error preprocessing '' @ filename),
                          Log Debug ''Preprocessing traceback'']))"

section \<open>Top designators: \<open>get_top_module\<close> and \<open>get_top_entity\<close>\<close>

definition module_re :: re where
  "module_re =
     seqs [WordB, Lit ''module'', Plus (Chr is_space), Grp 1 (Plus (Chr is_word)),
           Star (Chr is_space), Alt (Lit ''('') (Lit ''#'')]"

definition skip_words :: "string list" where
  "skip_words = [''verification'', ''assert'', ''assume'', ''cover'', ''layer'']"

text \<open>
  The loop that collects the candidates, and the loop that looks for the base name.
  \<open>get_top_module\<close> returns the base name when the file cannot be read (its debug
  message is left out).
\<close>

fun collect_candidates :: "string list \<Rightarrow> mstate list \<Rightarrow> string list" where
  "collect_candidates candidates [] = candidates"
| "collect_candidates candidates (m # ms) =
     (if list_ex (\<lambda>skip. contains skip (lower (grp m 1))) skip_words
      then collect_candidates candidates ms
      else collect_candidates (candidates @ [grp m 1]) ms)"

fun first_equal :: "string \<Rightarrow> string list \<Rightarrow> string option" where
  "first_equal base [] = None"
| "first_equal base (c # cs) = (if c = base then Some c else first_equal base cs)"

definition get_top_module :: "env \<Rightarrow> string \<Rightarrow> string" where
  "get_top_module e filename =
     (case read_file e filename of
        None \<Rightarrow> splitext_root (basename filename)
      | Some content \<Rightarrow>
          (let base = splitext_root (basename filename);
               candidates = collect_candidates [] (re_finditer module_re content)
           in if candidates = [] then base
              else (case first_equal base candidates of
                      Some c \<Rightarrow> c
                    | None \<Rightarrow> last candidates)))"

definition entity_re :: re where
  "entity_re = seqs [WordB, Lit_ci ''entity'', WordB]"

definition next_word_re :: re where
  "next_word_re = seqs [Star (Chr is_space), Grp 1 (Plus (Chr is_word))]"

text \<open>
  The loop over the matches of one line and the loop over the lines; the state of both
  is \<open>last_entity_word\<close>. The text after a match is \<open>line[m.end():]\<close>.
\<close>

fun scan_matches :: "string option \<Rightarrow> mstate list \<Rightarrow> string option" where
  "scan_matches last_entity_word [] = last_entity_word"
| "scan_matches last_entity_word (m # ms) =
     (case re_match next_word_re (strip (rest m)) of
        Some w \<Rightarrow> scan_matches (Some (grp w 1)) ms
      | None \<Rightarrow> scan_matches last_entity_word ms)"

fun scan_entity_lines :: "string option \<Rightarrow> string list \<Rightarrow> string option" where
  "scan_entity_lines last_entity_word [] = last_entity_word"
| "scan_entity_lines last_entity_word (line # ls) =
     (if found entity_re line
      then scan_entity_lines (scan_matches last_entity_word (re_finditer entity_re line)) ls
      else scan_entity_lines last_entity_word ls)"

definition truthy :: "string option \<Rightarrow> bool" where
  "truthy x = (case x of None \<Rightarrow> False | Some s \<Rightarrow> s \<noteq> [])"

definition get_top_entity :: "env \<Rightarrow> string \<Rightarrow> string option \<times> event list" where
  "get_top_entity e filename =
     (case read_file e filename of
        None \<Rightarrow> (None, [Log Error (''Error reading '' @ filename)])
      | Some content \<Rightarrow>
          (let last_entity_word = scan_entity_lines None (splitlines content)
           in if truthy last_entity_word
              then (last_entity_word,
                    [Log Info (''Found top entity '' @ the last_entity_word @ '' in '' @ filename)])
              else (None, [Log Error (''No entity declaration found in '' @ filename)])))"

section \<open>Statistics extractor\<close>

definition cells_label_re :: re where
  "cells_label_re =
     seqs [Star (Chr is_space), Lit ''Number of cells:'', Star (Chr is_space),
           Grp 1 (Plus (Chr is_digit))]"

text \<open>
  \<open>sum_cell_counts\<close>: the loop that finds \<open>last_stats_index\<close> (with \<open>enumerate\<close>), and
  the loop that adds up the counts.
\<close>

fun last_stats_loop :: "int \<Rightarrow> nat \<Rightarrow> string list \<Rightarrow> int" where
  "last_stats_loop last_stats_index i [] = last_stats_index"
| "last_stats_loop last_stats_index i (line # ls) =
     last_stats_loop (if contains ''Printing statistics.'' line then int i else last_stats_index)
       (i + 1) ls"

fun total_cells_loop :: "nat \<Rightarrow> string list \<Rightarrow> nat" where
  "total_cells_loop total_cells [] = total_cells"
| "total_cells_loop total_cells (line # ls) =
     (case re_match cells_label_re line of
        Some m \<Rightarrow> total_cells_loop (total_cells + int_of_digits (grp m 1)) ls
      | None \<Rightarrow> total_cells_loop total_cells ls)"

definition sum_cell_counts :: "string \<Rightarrow> nat" where
  "sum_cell_counts text =
     (let lines = split_on newline (strip text);
          last_stats_index = last_stats_loop (- 1) 0 lines
      in if last_stats_index = - 1 then 0
         else total_cells_loop 0 (drop (nat last_stats_index) lines))"

text \<open>The patterns of the SystemVerilog path, and one iteration of its loop.\<close>

definition digits_re :: re where
  "digits_re = Grp 0 (Plus (Chr is_digit))"

definition wire_bits_re :: re where
  "wire_bits_re = seqs [Grp 1 (Plus (Chr is_digit)), Plus (Chr is_space), Lit ''wire bits'']"

definition cells_line_re :: re where
  "cells_line_re =
     seqs [Bol, Plus (Chr is_space), Plus (Chr is_digit), Plus (Chr is_space), Lit ''cells'',
           Star (Chr is_space), Eol]"

definition cells_re :: re where
  "cells_re = seqs [Grp 1 (Plus (Chr is_digit)), Plus (Chr is_space), Lit ''cells'']"

type_synonym metric = "nat \<times> nat"

fun sv_stats_step :: "metric \<Rightarrow> string \<Rightarrow> metric" where
  "sv_stats_step (wire_bits, cells) line =
     (if contains ''Number of wire bits:'' line then
        (case re_search digits_re line of
           Some m \<Rightarrow> (int_of_digits (grp m 0), cells)
         | None \<Rightarrow> (wire_bits, cells))
      else if found wire_bits_re line \<and> \<not> contains ''Number of'' line then
        (case re_search wire_bits_re line of
           Some m \<Rightarrow> (int_of_digits (grp m 1), cells)
         | None \<Rightarrow> (wire_bits, cells))
      else if contains ''Number of cells:'' line then
        (case re_search digits_re line of
           Some m \<Rightarrow> (wire_bits, int_of_digits (grp m 0))
         | None \<Rightarrow> (wire_bits, cells))
      else if found cells_line_re line then
        (case re_search cells_re line of
           Some m \<Rightarrow> (wire_bits, int_of_digits (grp m 1))
         | None \<Rightarrow> (wire_bits, cells))
      else (wire_bits, cells))"

definition sv_stats :: "string \<Rightarrow> metric" where
  "sv_stats p = foldl sv_stats_step (0, 0) (split_on newline p)"

section \<open>Tool invoker: \<open>yosys\<close>\<close>

definition sv_script :: "string \<Rightarrow> string \<Rightarrow> string \<Rightarrow> string" where
  "sv_script read_command abs_path top_name =
     read_command @ '' -sv '' @ abs_path @ [newline] @
     ''hierarchy -top '' @ top_name @ [newline] @
     ''proc'' @ [newline] @
     ''techmap -map +/techmap.v'' @ [newline] @
     ''opt_clean'' @ [newline] @
     ''stat'' @ [newline]"

text \<open>
  The second half of \<open>yosys\<close>, from the writing of the command script on: \<open>vhdl\<close> is
  \<open>fn.endswith('.vhdl')\<close>, \<open>evs\<close> the events so far. An exception while the script is
  written reaches the outer handler, one while the tool runs or the log is appended to
  reaches one of the inner handlers; each returns \<open>(0, 0)\<close>. A return code other than
  zero only adds a debug message when the error output has a line with \<open>ERROR\<close>. The
  \<open>finally\<close> clause removes the temporary files; it neither returns nor raises, and
  is left out.
\<close>

definition run_and_parse :: "env \<Rightarrow> string \<Rightarrow> bool \<Rightarrow> string \<Rightarrow> event list \<Rightarrow> metric \<times> event list" where
  "run_and_parse e fn vhdl yosyscmd evs =
     (let temp_file = ''tmp_'' @ pid e @ ''.ys''
      in if \<not> write_ok e temp_file
         then ((0, 0), evs @ [Log Error (''Unexpected error processing '' @ fn)])
         else
           (let argv = (if vhdl then [''yosys'', ''-m'', ''ghdl'', ''-p'', yosyscmd]
                        else [''yosys'', temp_file]);
                evs = evs @ [WriteFile temp_file yosyscmd, RunTool argv]
            in case run_tool e argv of
                 TimeoutExpired \<Rightarrow> ((0, 0), evs @ [Log Error (''Timeout processing '' @ fn)])
               | ToolNotFound \<Rightarrow> ((0, 0), evs @ [Log Error ''Yosys not found''])
               | OtherError \<Rightarrow>
                   ((0, 0), evs @ [Log Error (''Unexpected error running Yosys for '' @ fn)])
               | Completed p stderr_output returncode \<Rightarrow>
                   if \<not> log_ok e
                   then ((0, 0), evs @ [Log Error (''Unexpected error running Yosys for '' @ fn)])
                   else
                     (let evs = evs @ [AppendLog fn] @
                            (if returncode \<noteq> 0 \<and> stderr_output \<noteq> [] \<and>
                                list_ex (contains ''ERROR'') (split_on newline stderr_output)
                             then [Log Debug (''Yosys error for '' @ fn)] else [])
                      in if vhdl
                         then ((0, sum_cell_counts p), evs @ [Log Info (''VHDL file '' @ fn @ '' processed'')])
                         else (sv_stats p, evs))))"

definition yosys :: "env \<Rightarrow> string \<Rightarrow> metric \<times> event list" where
  "yosys e fn =
     (if endswith fn ''.vhdl'' then
        (case get_top_entity e fn of
           (top_name, evs) \<Rightarrow>
             if \<not> truthy top_name
             then ((0, 0), evs @ [Log Error (''Could not find top entity in '' @ fn)])
             else run_and_parse e fn True
                    (''ghdl --std=08 -fsynopsys '' @ fn @ '' -e '' @ the top_name @ ''; synth; stat'')
                    (evs @ [Log Info (''Processing VHDL file: '' @ fn)]))
      else
        (let top_name = get_top_module e fn
         in case preprocess_sv_file e fn of
              (None, evs) \<Rightarrow>
                run_and_parse e fn False (sv_script ''read'' (abspath e fn) top_name)
                  (evs @ [Log Warning (''Preprocessing failed for '' @ fn @ '', using original file'')])
            | (Some preprocessed_content, evs) \<Rightarrow>
                (let preprocessed_file = ''tmp_'' @ pid e @ ''_'' @ basename fn
                 in if \<not> write_ok e preprocessed_file
                    then ((0, 0), evs @ [Log Error (''Unexpected error processing '' @ fn)])
                    else run_and_parse e fn False
                           (sv_script ''read_verilog'' (abspath e preprocessed_file) top_name)
                           (evs @ [WriteFile preprocessed_file preprocessed_content]))))"

section \<open>Parallel driver: \<open>process_files\<close>\<close>

text \<open>
  \<open>process_files\<close> submits one future per element of \<open>files\<close> and then iterates over
  \<open>as_completed\<close>, which yields every submitted future exactly once in an order the
  program does not control. A future is identified by its submission index; its outcome
  is either the exception that \<open>future.result()\<close> raises (\<open>Inl\<close>) or the worker's
  return value (\<open>Inr\<close>). The loop body stores \<open>future.result()\<close> under the file name,
  or \<open>(0, 0)\<close> when an exception is caught.
\<close>

definition store_result :: "(string \<rightharpoonup> metric) \<Rightarrow> string \<times> (string + metric) \<Rightarrow> (string \<rightharpoonup> metric)" where
  "store_result results t =
     (case snd t of
        Inr r \<Rightarrow> results(fst t \<mapsto> r)
      | Inl e \<Rightarrow> results(fst t \<mapsto> (0, 0)))"

definition process_files :: "string list \<Rightarrow> (string + metric) list \<Rightarrow> nat list \<Rightarrow> (string \<rightharpoonup> metric)" where
  "process_files files outcomes completion =
     foldl store_result Map.empty (map (\<lambda>i. (files ! i, outcomes ! i)) completion)"


section \<open>Notions used to state the properties\<close>

text \<open>The entry that the driver stores for the outcome of a future.\<close>

definition entry_of :: "string + metric \<Rightarrow> metric" where
  "entry_of outcome = (case outcome of Inl e \<Rightarrow> (0, 0) | Inr r \<Rightarrow> r)"

text \<open>
  The results of a sequence of calls of the name normalizer, the first one made on the
  given cache; and the names that the normalizer has nothing to do on: no extension to
  remove, no library prefix and no composite name.
\<close>

fun cached_calls :: "cache \<Rightarrow> string list \<Rightarrow> string list" where
  "cached_calls cache [] = []"
| "cached_calls cache (n # ns) =
     (case prettify_name_cached cache n of (result, cache') \<Rightarrow> result # cached_calls cache' ns)"

definition canonical :: "string \<Rightarrow> bool" where
  "canonical n =
     (CHR ''.'' \<notin> set n \<and>
      \<not> startswith n ''CFG_FP_'' \<and> \<not> startswith n ''FP'' \<and> \<not> startswith n ''Rial'' \<and>
      \<not> contains ''ReciprocalATan2Phase1ATan2Phase2'' n \<and>
      \<not> contains ''SqrtACosPhase1ACosPhase2'' n)"

text \<open>
  A line holds the statistics marker; and the count a line contributes to the VHDL sum:
  the integer after a \<open>Number of cells:\<close> label that starts the line (after optional
  whitespace), or nothing.
\<close>

definition has_marker :: "string \<Rightarrow> bool" where
  "has_marker line = contains ''Printing statistics.'' line"

definition cell_count :: "string \<Rightarrow> nat" where
  "cell_count line =
     (case re_match cells_label_re line of
        Some m \<Rightarrow> int_of_digits (grp m 1)
      | None \<Rightarrow> 0)"


text \<open>
  The words found after the \<open>entity\<close> keyword: for one match of the keyword, the word
  that follows it on the line, if there is one; and all of them for a file, line by line
  and left to right.
\<close>

definition word_after :: "mstate \<Rightarrow> string list" where
  "word_after m =
     (case re_match next_word_re (strip (rest m)) of Some w \<Rightarrow> [grp w 1] | None \<Rightarrow> [])"

definition entity_words :: "string \<Rightarrow> string list" where
  "entity_words content =
     concat (map (\<lambda>line. concat (map word_after (re_finditer entity_re line))) (splitlines content))"

text \<open>The command lines of the tool runs among the events of a call.\<close>

definition tool_runs :: "event list \<Rightarrow> string list list" where
  "tool_runs evs = concat (map (\<lambda>ev. case ev of RunTool argv \<Rightarrow> [argv] | _ \<Rightarrow> []) evs)"

text \<open>Sample inputs for the examples.\<close>

definition demo_env :: env where
  "demo_env = \<lparr>read_file = (\<lambda>f. if f = ''adder.vhdl'' then Some (''entity adder is'' @ [newline] @ ''end entity;'') else None),
     write_ok = (\<lambda>f. True),
     run_tool = (\<lambda>argv. Completed (join [newline] [''2. Printing statistics.'', ''   Number of wire bits:  397'', ''   Number of cells:  52'']) [] 0),
     log_ok = True, abspath = (\<lambda>p. ''/work/'' @ p), pid = ''41''\<rparr>"


text \<open>
  The entities that a text declares, in file order: an entity declaration is a line
  \<open>entity <name> is\<close>, the keywords in any case. A design that declares the entity
  \<open>top\<close> and whose architecture instantiates an entity of the library \<open>work\<close>; and
  the environment in which every file holds the given lines.
\<close>

definition declares_entity :: "string \<Rightarrow> string list" where
  "declares_entity line =
     (case split_ws [] line of
        kw # name # is_kw # others \<Rightarrow>
          if lower kw = ''entity'' \<and> lower is_kw = ''is'' then [name] else []
      | _ \<Rightarrow> [])"

definition declared_entities :: "string \<Rightarrow> string list" where
  "declared_entities content = concat (map declares_entity (splitlines content))"

definition top_design_lines :: "string list" where
  "top_design_lines =
     [''entity top is'', ''end entity top;'', ''architecture rtl of top is'', ''begin'',
      ''  u0: entity work.adder port map (a => a);'', ''end architecture;'']"

definition design_env :: "string list \<Rightarrow> env" where
  "design_env ls = demo_env\<lparr>read_file := (\<lambda>f. Some (join [newline] ls))\<rparr>"

text \<open>
  The module names declared in a text, in file order; the names that the resolver leaves
  out; and the base name of a file.
\<close>

definition module_names :: "string \<Rightarrow> string list" where
  "module_names content = map (\<lambda>m. grp m 1) (re_finditer module_re content)"

definition is_verification_name :: "string \<Rightarrow> bool" where
  "is_verification_name name =
     (\<exists>skip\<in>set [''verification'', ''assert'', ''assume'', ''cover'', ''layer''].
        contains skip (lower name))"

definition file_base :: "string \<Rightarrow> string" where
  "file_base filename = splitext_root (basename filename)"

definition three_modules :: string where
  "three_modules = join [newline]
     [''module Sub(input a);'', ''endmodule'', ''module Top_Assert #(parameter W = 1) (input b);'',
      ''endmodule'', ''module Top (input c);'', ''endmodule'',
      ''module CoverLayer(input d);'', ''endmodule'']"


text \<open>
  What one line of the tool output assigns to each metric on the SystemVerilog path, if
  anything. A line is tried against the formats in the order wire bits (old, new), cells
  (old, new), and only the first format that applies is used; the old formats take the
  first run of digits of the line.
\<close>

definition takes_wire_branch :: "string \<Rightarrow> bool" where
  "takes_wire_branch line =
     (contains ''Number of wire bits:'' line \<or>
      (found wire_bits_re line \<and> \<not> contains ''Number of'' line))"

definition wire_bits_update :: "string \<Rightarrow> nat option" where
  "wire_bits_update line =
     (if contains ''Number of wire bits:'' line
      then map_option (\<lambda>m. int_of_digits (grp m 0)) (re_search digits_re line)
      else if found wire_bits_re line \<and> \<not> contains ''Number of'' line
      then map_option (\<lambda>m. int_of_digits (grp m 1)) (re_search wire_bits_re line)
      else None)"

definition cells_update :: "string \<Rightarrow> nat option" where
  "cells_update line =
     (if takes_wire_branch line then None
      else if contains ''Number of cells:'' line
      then map_option (\<lambda>m. int_of_digits (grp m 0)) (re_search digits_re line)
      else if found cells_line_re line
      then map_option (\<lambda>m. int_of_digits (grp m 1)) (re_search cells_re line)
      else None)"

definition sv_log :: string where
  "sv_log = join [newline]
     [''   Number of wire bits:        397'', ''Number of cells: 52'', ''=== design ==='',
      ''      401 wire bits'', ''       48 cells'', ''End of script.'']"

text \<open>
  A guarded block that holds a nested \<open>ifndef\<close> of the marker, followed by a second
  guarded block.
\<close>

definition nested_ifndef_lines :: "string list" where
  "nested_ifndef_lines =
     [backtick # ''ifdef ENABLE_INITIAL_REG_'',
      ''  '' @ backtick # ''ifndef ENABLE_INITIAL_REG_'',
      ''  '' @ backtick # ''endif // ENABLE_INITIAL_REG_'',
      backtick # ''endif // ENABLE_INITIAL_REG_'',
      backtick # ''ifdef ENABLE_INITIAL_REG_'',
      ''  initial q = 0;'',
      backtick # ''endif // ENABLE_INITIAL_REG_'',
      ''assign y = q;'']"


text \<open>
  A clocked block that holds the declaration of the example after one other line, and
  the same block with the declaration hoisted; the other line is a call of \<open>$display\<close>
  with a message, or a block comment. A clocked block with two nested blocks, the first
  with a call of \<open>$display\<close> and the second with the declaration, and the same block
  with the declaration hoisted.
\<close>

definition clocked_block :: "string \<Rightarrow> string list" where
  "clocked_block first =
     [''always @(posedge clk) begin'', first, ''  logic [7:0] tmp = a + b;'', ''  q <= tmp;'',
      ''end'']"

definition hoisted_block :: "string \<Rightarrow> string list" where
  "hoisted_block first =
     [''wire [7:0] tmp = a + b;'', ''always @(posedge clk) begin'', first, ''  q <= tmp;'',
      ''end'']"

definition display_line :: "string \<Rightarrow> string" where
  "display_line msg = ''  $display('' @ quote2 # msg @ quote2 # '');''"

definition nested_block :: "string \<Rightarrow> string list" where
  "nested_block msg =
     [''always @(posedge clk) begin'', ''  if (a) begin'', ''  '' @ display_line msg, ''  end'',
      ''  if (b) begin'', ''    logic [7:0] tmp = a + b;'', ''    q <= tmp;'', ''  end'', ''end'']"

definition hoisted_nested_block :: "string \<Rightarrow> string list" where
  "hoisted_nested_block msg =
     [''wire [7:0] tmp = a + b;'', ''always @(posedge clk) begin'', ''  if (a) begin'',
      ''  '' @ display_line msg, ''  end'', ''  if (b) begin'', ''    q <= tmp;'', ''  end'', ''end'']"

text \<open>
  The declaration of the example, without its indentation.
\<close>

definition decl_text :: string where
  "decl_text = ''logic [7:0] tmp = a + b;''"

text \<open>
  A run of lines inside a block, as the inner loop of the hoisting stage reads them:
  \<open>scan_lines indent seg (depth, hoisted, kept)\<close> is the depth, the hoisted \<open>wire\<close>
  lines and the lines kept in the block after the lines \<open>seg\<close>, read from the given
  state. It is \<open>None\<close> when the block closes within \<open>seg\<close>, or when a statement that
  starts in \<open>seg\<close> has no \<open>;\<close> by the end of \<open>seg\<close>: then \<open>seg\<close> is not a run of lines
  that the loop reads as a whole inside one block.
\<close>

fun gather_within :: "string \<Rightarrow> string list \<Rightarrow> (string list \<times> string list) option" where
  "gather_within rhs [] = (if CHR '';'' \<in> set rhs then Some ([], []) else None)"
| "gather_within rhs (l # ls) =
     (if CHR '';'' \<in> set rhs then Some ([], l # ls)
      else (case gather_within (rhs @ newline # l) ls of
              Some (stmt, left) \<Rightarrow> Some (l # stmt, left)
            | None \<Rightarrow> None))"

lemma gather_within_length:
  "gather_within rhs ls = Some (stmt, left) \<Longrightarrow> length left \<le> length ls"
  by (induction rhs ls arbitrary: stmt left rule: gather_within.induct)
     (auto split: if_splits option.splits)

function scan_lines :: "string \<Rightarrow> string list \<Rightarrow> int \<times> string list \<times> string list \<Rightarrow>
    (int \<times> string list \<times> string list) option" where
  "scan_lines indent [] s = Some s"
| "scan_lines indent (cur # ls) (depth, hoisted, kept) =
     (if \<not> depth > 0 then None
      else if has_end cur then
        (if depth_after_begin depth cur - 1 = 0 then None
         else scan_lines indent ls (depth_after_begin depth cur - 1, hoisted, kept @ [cur]))
      else
        (case re_match logic_re cur of
           Some m \<Rightarrow>
             (case gather_within (grp m 4) ls of
                Some (stmt, left) \<Rightarrow>
                  scan_lines indent left
                    (depth_after_begin depth cur,
                     (case wire_of indent (grp m 2) (grp m 3) (join [newline] (cur # stmt)) of
                        Some w \<Rightarrow> hoisted @ [w] | None \<Rightarrow> hoisted),
                     kept)
              | None \<Rightarrow> None)
         | None \<Rightarrow> scan_lines indent ls (depth_after_begin depth cur, hoisted, kept @ [cur])))"
  by pat_completeness auto
termination
proof (relation "measure (\<lambda>(indent, ls, s). length ls)")
  show "wf (measure (\<lambda>(indent, ls, s). length ls))"
    by simp
qed (auto dest: gather_within_length)

section \<open>Facts about the matcher\<close>

lemma seqs_simps: "seqs [] = Eps" "seqs (r # rs) = Seq r (seqs rs)"
  by (simp_all add: seqs_def)

lemma Lit_simps: "Lit [] = Eps" "Lit (c # cs) = Seq (Chr (\<lambda>x. x = c)) (Lit cs)"
  by (simp_all add: Lit_def)

lemma star_result:
  assumes f: "\<And>k' st'. f k' st' = Some m \<Longrightarrow> \<exists>st''. k' st'' = Some m"
  shows "star n f k st = Some m \<Longrightarrow>
    \<exists>st'. length (rest st') \<le> length (rest st) \<and> k st' = Some m"
proof (induction n arbitrary: st)
  case 0
  then show ?case by auto
next
  case (Suc n)
  let ?k = "\<lambda>st'. if length (rest st') < length (rest st) then star n f k st' else None"
  show ?case
  proof (cases "f ?k st")
    case None
    with Suc.prems have "k st = Some m" by simp
    then show ?thesis by auto
  next
    case (Some r)
    with Suc.prems have "f ?k st = Some m" by simp
    from f [OF this] obtain st1 where "?k st1 = Some m" ..
    then have lt: "length (rest st1) < length (rest st)" and s: "star n f k st1 = Some m"
      by (auto split: if_splits)
    from Suc.IH [OF s] obtain st' where
      "length (rest st') \<le> length (rest st1)" "k st' = Some m" by auto
    with lt show ?thesis by (intro exI [of _ st']) simp
  qed
qed

lemma chr_result: "rmatch (Chr P) k st = Some m \<Longrightarrow> \<exists>st'. k st' = Some m"
  by (auto split: list.splits if_splits)

lemma star_chr_result:
  "star n (rmatch (Chr P)) k st = Some m \<Longrightarrow>
   \<exists>st'. length (rest st') \<le> length (rest st) \<and> k st' = Some m"
  by (rule star_result [where f = "rmatch (Chr P)"]) (rule chr_result)

lemma startswith_append: "startswith s (p @ q) \<Longrightarrow> startswith s p"
  by (induction s p rule: startswith.induct) auto

lemma rmatch_Lit_mismatch:
  "\<not> startswith (rest st) p \<Longrightarrow> rmatch (Lit p) k st = None"
proof (induction p arbitrary: st)
  case Nil
  then show ?case by simp
next
  case (Cons c p)
  show ?case
  proof (cases "rest st")
    case Nil
    then show ?thesis by (simp add: Lit_simps)
  next
    case (Cons d ds)
    with Cons.prems have "d \<noteq> c \<or> \<not> startswith ds p" by simp
    then show ?thesis
      using Cons Cons.IH [of "st\<lparr>prev := Some d, rest := ds\<rparr>"]
      by (auto simp: Lit_simps)
  qed
qed

lemma re_match_Lit_mismatch:
  "\<not> startswith s p \<Longrightarrow> re_match (Seq (Lit p) r) s = None"
  by (simp add: re_match_def rmatch_Lit_mismatch)

lemma re_match_Grp_Lit_mismatch:
  "\<not> startswith s p \<Longrightarrow> re_match (Seq (Grp i (Seq (Lit p) r)) r') s = None"
  by (simp add: re_match_def rmatch_Lit_mismatch)

lemma find_from_none: "d \<notin> set s \<Longrightarrow> find_from i d s = - 1"
  by (induction s arbitrary: i) auto

lemma star_greedy:
  assumes f: "\<And>k st. f k st =
      (case rest st of [] \<Rightarrow> None
       | c # cs \<Rightarrow> if P c then k (st\<lparr>prev := Some c, rest := cs\<rparr>) else None)"
    and "\<forall>c\<in>set ws. P c" and "s = [] \<or> \<not> P (hd s)" and "length ws \<le> n"
    and "k \<lparr>prev = (if ws = [] then p else Some (last ws)), rest = s, caps = cp\<rparr> = Some m"
  shows "star n f k \<lparr>prev = p, rest = ws @ s, caps = cp\<rparr> = Some m"
  using assms(2-)
proof (induction ws arbitrary: p n)
  case Nil
  let ?st = "\<lparr>prev = p, rest = s, caps = cp\<rparr>"
  from Nil have k: "k ?st = Some m" by simp
  show ?case
  proof (cases n)
    case 0
    with k show ?thesis by simp
  next
    case (Suc n')
    let ?g = "\<lambda>st'. if length (rest st') < length (rest ?st) then star n' f k st' else None"
    have "f ?g ?st = None"
      using Nil.prems(2) by (subst f) (cases s, auto)
    then have "star (Suc n') f k ?st = k ?st"
      by (simp only: star.simps option.case)
    with k Suc show ?thesis by simp
  qed
next
  case (Cons c ws)
  from Cons.prems(3) obtain n' where n: "n = Suc n'" and le: "length ws \<le> n'"
    by (cases n) auto
  let ?st = "\<lparr>prev = p, rest = (c # ws) @ s, caps = cp\<rparr>"
  let ?st' = "\<lparr>prev = Some c, rest = ws @ s, caps = cp\<rparr>"
  let ?g = "\<lambda>st'. if length (rest st') < length (rest ?st) then star n' f k st' else None"
  have IH: "star n' f k ?st' = Some m"
    using Cons.prems by (intro Cons.IH) (auto simp: le)
  have "f ?g ?st = ?g ?st'"
    using Cons.prems(1) by (subst f) simp
  also have "\<dots> = Some m"
    using IH by simp
  finally have "star (Suc n') f k ?st = Some m"
    by (simp only: star.simps option.case)
  with n show ?case by simp
qed

lemma rmatch_Star_chr_greedy:
  assumes "\<forall>c\<in>set ws. P c" and "s = [] \<or> \<not> P (hd s)"
    and "k \<lparr>prev = (if ws = [] then p else Some (last ws)), rest = s, caps = cp\<rparr> = Some m"
  shows "rmatch (Star (Chr P)) k \<lparr>prev = p, rest = ws @ s, caps = cp\<rparr> = Some m"
proof -
  have "star (length (ws @ s)) (rmatch (Chr P)) k \<lparr>prev = p, rest = ws @ s, caps = cp\<rparr> = Some m"
    by (rule star_greedy [where P = P]) (use assms in simp_all)
  then show ?thesis by (simp only: rmatch.simps mstate.simps)
qed

lemma search_from_skip:
  assumes "\<And>c p cs. c \<in> set ws \<Longrightarrow> rmatch r Some \<lparr>prev = p, rest = c # cs, caps = []\<rparr> = None"
  shows "search_from r p (ws @ s) = search_from r (if ws = [] then p else Some (last ws)) s"
  using assms
proof (induction ws arbitrary: p)
  case Nil
  show ?case by simp
next
  case (Cons c ws)
  have "search_from r p ((c # ws) @ s) = search_from r (Some c) (ws @ s)"
    using Cons.prems [of c p "ws @ s"] by simp
  also have "\<dots> = search_from r (if ws = [] then Some c else Some (last ws)) s"
    using Cons.prems by (intro Cons.IH) auto
  finally show ?case by simp
qed

lemma before_sep_skip:
  "\<forall>c\<in>set ws. c \<noteq> CHR ''/'' \<Longrightarrow> before_sep ''//'' (ws @ s) = ws @ before_sep ''//'' s"
  by (induction ws) auto

lemma find_from_skip:
  "d \<notin> set ws \<Longrightarrow> find_from i d (ws @ s) = find_from (i + length ws) d s"
  by (induction ws arbitrary: i) auto

lemma find_from_ge: "find_from i d s \<ge> - 1"
  by (induction s arbitrary: i) auto

lemma find_from_shift:
  "find_from i d s = (if find_from 0 d s = - 1 then - 1 else int i + find_from 0 d s)"
proof (induction s arbitrary: i)
  case Nil
  show ?case by simp
next
  case (Cons c cs)
  show ?case
  proof (cases "c = d")
    case True
    then show ?thesis by simp
  next
    case False
    have "find_from (i + 1) d cs = (if find_from 0 d cs = - 1 then - 1 else int (i + 1) + find_from 0 d cs)"
      by (rule Cons.IH)
    moreover have "find_from 1 d cs = (if find_from 0 d cs = - 1 then - 1 else int 1 + find_from 0 d cs)"
      by (rule Cons.IH)
    ultimately show ?thesis
      using False find_from_ge [of 0 d cs] by auto
  qed
qed

lemma rfind_char_last: "rfind_char d (s @ [d]) = int (length s)"
  by (simp add: rfind_char_def find_char_def)


section \<open>The parallel driver returns one entry per file\<close>

lemma store_result_upd: "store_result m (f, outcome) = m(f \<mapsto> entry_of outcome)"
  by (cases outcome) (simp_all add: store_result_def entry_of_def)

lemma dom_foldl_store:
  "dom (foldl store_result m ts) = dom m \<union> fst ` set ts"
proof (induction ts arbitrary: m)
  case Nil
  then show ?case by simp
next
  case (Cons t ts)
  obtain f outcome where t: "t = (f, outcome)" by (cases t)
  show ?case by (auto simp: Cons.IH t store_result_upd)
qed

lemma foldl_store_lookup:
  assumes "(f, outcome) \<in> set ts"
    and "\<forall>outcome'. (f, outcome') \<in> set ts \<longrightarrow> entry_of outcome' = entry_of outcome"
  shows "foldl store_result m ts f = Some (entry_of outcome)"
  using assms
proof (induction ts arbitrary: m rule: rev_induct)
  case Nil
  then show ?case by simp
next
  case (snoc t ts)
  obtain g outcome' where t: "t = (g, outcome')" by (cases t)
  show ?case
  proof (cases "g = f")
    case True
    with snoc.prems(2) t have "entry_of outcome' = entry_of outcome" by simp
    with True t show ?thesis by (simp add: store_result_upd)
  next
    case False
    with snoc.prems(1) t have "(f, outcome) \<in> set ts" by auto
    moreover from snoc.prems(2)
    have "\<forall>outcome'. (f, outcome') \<in> set ts \<longrightarrow> entry_of outcome' = entry_of outcome" by auto
    ultimately have "foldl store_result m ts f = Some (entry_of outcome)" by (rule snoc.IH)
    with False t show ?thesis by (simp add: store_result_upd)
  qed
qed

text \<open>
  C1. Whatever order the futures complete in, the mapping returned by \<open>process_files\<close>
  has exactly the input files as its keys. A file whose worker computation raised is
  mapped to \<open>(0, 0)\<close> and a file whose worker returned is mapped to that return value;
  when a file name was submitted more than once this is stated for a file all of whose
  submissions had the same outcome.
\<close>

theorem process_files_one_entry_per_file:
  assumes len: "length outcomes = length files"
    and perm: "mset completion = mset [0..<length files]"
  shows "dom (process_files files outcomes completion) = set files \<and>
         (\<forall>i<length files.
            (\<forall>j<length files. files ! j = files ! i \<longrightarrow> outcomes ! j = outcomes ! i) \<longrightarrow>
            process_files files outcomes completion (files ! i) =
              Some (case outcomes ! i of Inl e \<Rightarrow> (0, 0) | Inr r \<Rightarrow> r))"
proof -
  let ?ts = "map (\<lambda>i. (files ! i, outcomes ! i)) completion"
  from perm have setc: "set completion = {0..<length files}"
    by (metis mset_eq_setD set_upt)
  have "fst ` set ?ts = (\<lambda>i. files ! i) ` {0..<length files}"
    by (simp add: setc image_image)
  also have "\<dots> = set (map (\<lambda>i. files ! i) [0..<length files])"
    by simp
  also have "\<dots> = set files"
    by (simp only: map_nth)
  finally have keys: "fst ` set ?ts = set files" .
  have dom: "dom (process_files files outcomes completion) = set files"
    unfolding process_files_def dom_foldl_store keys by simp
  have entries: "process_files files outcomes completion (files ! i) =
      Some (case outcomes ! i of Inl e \<Rightarrow> (0, 0) | Inr r \<Rightarrow> r)"
    if i: "i < length files"
      and same: "\<forall>j<length files. files ! j = files ! i \<longrightarrow> outcomes ! j = outcomes ! i"
    for i
  proof -
    from i setc have "(files ! i, outcomes ! i) \<in> set ?ts" by auto
    moreover have "\<forall>outcome'. (files ! i, outcome') \<in> set ?ts \<longrightarrow>
                     entry_of outcome' = entry_of (outcomes ! i)"
      using same setc by auto
    ultimately have "foldl store_result Map.empty ?ts (files ! i) = Some (entry_of (outcomes ! i))"
      by (rule foldl_store_lookup)
    then show ?thesis by (simp add: process_files_def entry_of_def)
  qed
  from dom entries show ?thesis by blast
qed

theorem process_files_one_entry_per_file_witness:
  "dom (process_files [''a.sv'', ''b.vhdl'', ''c.sv'']
          [Inr (3, 5), Inl ''boom'', Inr (0, 7)] [2, 0, 1]) = {''a.sv'', ''b.vhdl'', ''c.sv''} \<and>
   process_files [''a.sv'', ''b.vhdl'', ''c.sv'']
     [Inr (3, 5), Inl ''boom'', Inr (0, 7)] [2, 0, 1] ''b.vhdl'' = Some (0, 0) \<and>
   process_files [''a.sv'', ''b.vhdl'', ''c.sv'']
     [Inr (3, 5), Inl ''boom'', Inr (0, 7)] [2, 0, 1] ''a.sv'' = Some (3, 5)"
proof -
  let ?F = "[''a.sv'', ''b.vhdl'', ''c.sv'']"
  let ?O = "[Inr (3, 5), Inl ''boom'', Inr (0, 7)] :: (string + metric) list"
  have len: "length ?O = length ?F" by simp
  have perm: "mset [2, 0, 1] = mset [0..<length ?F]" by (simp add: upt_rec)
  note th = process_files_one_entry_per_file [OF len perm]
  from th have d: "dom (process_files ?F ?O [2, 0, 1]) = set ?F" by (rule conjunct1)
  have lt3: "j = 0 \<or> j = 1 \<or> j = 2" if "j < length ?F" for j :: nat
    using that by (auto simp: less_Suc_eq)
  have s1: "\<forall>j<length ?F. ?F ! j = ?F ! 1 \<longrightarrow> ?O ! j = ?O ! 1"
    using lt3 by fastforce
  have s0: "\<forall>j<length ?F. ?F ! j = ?F ! 0 \<longrightarrow> ?O ! j = ?O ! 0"
    using lt3 by fastforce
  have e1: "process_files ?F ?O [2, 0, 1] ''b.vhdl'' = Some (0, 0)"
    using th [THEN conjunct2, THEN spec, of 1] s1 by simp
  have e0: "process_files ?F ?O [2, 0, 1] ''a.sv'' = Some (3, 5)"
    using th [THEN conjunct2, THEN spec, of 0] s0 by simp
  from d e1 e0 show ?thesis by simp
qed


section \<open>Statistics of the SystemVerilog path: the last assignment wins\<close>

lemma sv_stats_step_updates:
  "sv_stats_step (w, c) line =
     (case wire_bits_update line of Some n \<Rightarrow> n | None \<Rightarrow> w,
      case cells_update line of Some n \<Rightarrow> n | None \<Rightarrow> c)"
  by (auto simp: wire_bits_update_def cells_update_def takes_wire_branch_def
           split: option.splits)

lemma foldl_step_fst_none:
  "\<forall>x\<in>set ls. wire_bits_update x = None \<Longrightarrow> fst (foldl sv_stats_step (w, c) ls) = w"
proof (induction ls arbitrary: w c)
  case Nil
  then show ?case by simp
next
  case (Cons l ls)
  then show ?case by (simp add: sv_stats_step_updates del: sv_stats_step.simps)
qed

lemma foldl_step_snd_none:
  "\<forall>x\<in>set ls. cells_update x = None \<Longrightarrow> snd (foldl sv_stats_step (w, c) ls) = c"
proof (induction ls arbitrary: w c)
  case Nil
  then show ?case by simp
next
  case (Cons l ls)
  then show ?case by (simp add: sv_stats_step_updates del: sv_stats_step.simps)
qed

lemma foldl_step_last_wire:
  assumes "wire_bits_update l = Some n" "\<forall>x\<in>set post. wire_bits_update x = None"
  shows "fst (foldl sv_stats_step acc (pre @ l # post)) = n"
proof -
  obtain w c where acc: "foldl sv_stats_step acc pre = (w, c)"
    by (cases "foldl sv_stats_step acc pre")
  show ?thesis
    using assms
    by (simp add: acc sv_stats_step_updates foldl_step_fst_none del: sv_stats_step.simps)
qed

lemma foldl_step_last_cells:
  assumes "cells_update l = Some n" "\<forall>x\<in>set post. cells_update x = None"
  shows "snd (foldl sv_stats_step acc (pre @ l # post)) = n"
proof -
  obtain w c where acc: "foldl sv_stats_step acc pre = (w, c)"
    by (cases "foldl sv_stats_step acc pre")
  show ?thesis
    using assms
    by (simp add: acc sv_stats_step_updates foldl_step_snd_none del: sv_stats_step.simps)
qed

text \<open>
  C2 (amended). For each of the two metrics, the last line of the output that assigns the
  metric determines its final value. \<open>Number of cells: 52\<close> assigns 52 and the
  right-aligned line \<open>       48 cells\<close> assigns 48, so the latter wins when it comes
  later; a line \<open>48 cells\<close> without leading whitespace assigns nothing.
\<close>

theorem sv_stats_last_update_wins:
  "(\<forall>pre l post n.
      split_on newline p = pre @ l # post \<and> cells_update l = Some n \<and>
      (\<forall>x\<in>set post. cells_update x = None) \<longrightarrow> snd (sv_stats p) = n) \<and>
   (\<forall>pre l post n.
      split_on newline p = pre @ l # post \<and> wire_bits_update l = Some n \<and>
      (\<forall>x\<in>set post. wire_bits_update x = None) \<longrightarrow> fst (sv_stats p) = n) \<and>
   cells_update ''Number of cells: 52'' = Some 52 \<and>
   cells_update ''       48 cells'' = Some 48 \<and>
   cells_update ''48 cells'' = None"
proof (intro conjI allI impI)
  fix pre l post n
  assume "split_on newline p = pre @ l # post \<and> cells_update l = Some n \<and>
      (\<forall>x\<in>set post. cells_update x = None)"
  then show "snd (sv_stats p) = n"
    by (simp add: sv_stats_def foldl_step_last_cells del: foldl_append foldl_Cons)
next
  fix pre l post n
  assume "split_on newline p = pre @ l # post \<and> wire_bits_update l = Some n \<and>
      (\<forall>x\<in>set post. wire_bits_update x = None)"
  then show "fst (sv_stats p) = n"
    by (simp add: sv_stats_def foldl_step_last_wire del: foldl_append foldl_Cons)
next
  show "cells_update ''Number of cells: 52'' = Some 52" by code_simp
  show "cells_update ''       48 cells'' = Some 48" by code_simp
  show "cells_update ''48 cells'' = None" by code_simp
qed

theorem sv_stats_last_update_wins_witness:
  "sv_stats sv_log = (401, 48)"
proof -
  note th = sv_stats_last_update_wins [of sv_log]
  let ?pre = "[''   Number of wire bits:        397'', ''Number of cells: 52'', ''=== design ==='',
      ''      401 wire bits'']"
  have s1: "split_on newline sv_log = ?pre @ ''       48 cells'' # [''End of script.'']"
    by code_simp
  have c1: "cells_update ''       48 cells'' = Some 48" by code_simp
  have p1: "\<forall>x\<in>set [''End of script.'']. cells_update x = None" by code_simp
  from th [THEN conjunct1, THEN spec, THEN spec, THEN spec, THEN spec,
      of ?pre "''       48 cells''" "[''End of script.'']" 48] s1 c1 p1
  have a: "snd (sv_stats sv_log) = 48" by blast
  let ?pre2 = "[''   Number of wire bits:        397'', ''Number of cells: 52'', ''=== design ==='']"
  have s2: "split_on newline sv_log = ?pre2 @ ''      401 wire bits'' # [''       48 cells'', ''End of script.'']"
    by code_simp
  have c2: "wire_bits_update ''      401 wire bits'' = Some 401" by code_simp
  have p2: "\<forall>x\<in>set [''       48 cells'', ''End of script.'']. wire_bits_update x = None" by code_simp
  from th [THEN conjunct2, THEN conjunct1, THEN spec, THEN spec, THEN spec, THEN spec,
      of ?pre2 "''      401 wire bits''" "[''       48 cells'', ''End of script.'']" 401] s2 c2 p2
  have b: "fst (sv_stats sv_log) = 401" by blast
  from a b show ?thesis by (simp add: prod_eq_iff)
qed

text \<open>
  The claim as stated fails: after \<open>Number of cells: 52\<close>, a later line \<open>48 cells\<close>
  leaves the cell count at 52.
\<close>

theorem sv_stats_unaligned_cells_counterexample:
  "snd (sv_stats (join [newline] [''Number of cells: 52'', ''48 cells''])) = 52"
  by code_simp


section \<open>The name normalizer and its fixed points\<close>

lemma splitext_root_no_dot: "CHR ''.'' \<notin> set p \<Longrightarrow> splitext_root p = p"
proof -
  assume "CHR ''.'' \<notin> set p"
  then have "rfind_char (CHR ''.'') p = - 1"
    by (simp add: rfind_char_def find_char_def find_from_none)
  moreover have "rfind_char (CHR ''/'') p \<ge> - 1"
  proof -
    have "find_from i d s = - 1 \<or> (int i \<le> find_from i d s \<and> find_from i d s < int i + int (length s))"
      for i d s
      by (induction s arbitrary: i) (auto, force+)
    from this [of 0 "CHR ''/''" "rev p"] show ?thesis
      by (auto simp: rfind_char_def find_char_def Let_def)
  qed
  ultimately show ?thesis by (simp add: splitext_root_def)
qed

lemma replace_absent:
  "old \<noteq> [] \<Longrightarrow> \<not> contains old s \<Longrightarrow> replace old new s = s"
proof (induction s)
  case Nil
  then show ?case by (simp add: replace.simps)
next
  case (Cons c s)
  then show ?case by (simp add: replace.simps [of old new "c # s"])
qed

lemma cached_call_sound:
  assumes "\<forall>kv \<in> set cache. snd kv = prettify_name (fst kv)"
  shows "fst (prettify_name_cached cache n) = prettify_name n \<and>
         (\<forall>kv \<in> set (snd (prettify_name_cached cache n)). snd kv = prettify_name (fst kv))"
proof (cases "map_of cache n")
  case None
  have "set (take CACHE_SIZE ((n, prettify_name n) # cache)) \<subseteq> insert (n, prettify_name n) (set cache)"
    using set_take_subset [of CACHE_SIZE "(n, prettify_name n) # cache"] by simp
  with assms None show ?thesis
    by (auto simp: prettify_name_cached_def Let_def)
next
  case (Some v)
  then have "(n, v) \<in> set cache" by (rule map_of_SomeD)
  with assms have "v = prettify_name n" by auto
  with assms Some show ?thesis
    by (auto simp: prettify_name_cached_def)
qed

lemma cached_calls_sound:
  "\<forall>kv \<in> set cache. snd kv = prettify_name (fst kv) \<Longrightarrow>
   cached_calls cache ns = map prettify_name ns"
proof (induction ns arbitrary: cache)
  case Nil
  then show ?case by simp
next
  case (Cons n ns)
  obtain r c' where p: "prettify_name_cached cache n = (r, c')"
    by (cases "prettify_name_cached cache n")
  with cached_call_sound [OF Cons.prems, of n]
  have "r = prettify_name n" and "\<forall>kv \<in> set c'. snd kv = prettify_name (fst kv)"
    by simp_all
  with p Cons.IH [of c'] show ?case by simp
qed

lemma canonical_fixed: "canonical n \<Longrightarrow> prettify_name n = n"
proof -
  assume c: "canonical n"
  then have a: "CHR ''.'' \<notin> set n \<and>
    \<not> startswith n ''CFG_FP_'' \<and> \<not> startswith n ''FP'' \<and> \<not> startswith n ''Rial'' \<and>
    \<not> contains ''ReciprocalATan2Phase1ATan2Phase2'' n \<and>
    \<not> contains ''SqrtACosPhase1ACosPhase2'' n"
    by (simp add: canonical_def)
  have fp_: "\<not> startswith n ''FP_''"
    using a startswith_append [of n "''FP''" "''_''"] by auto
  have tail: "prettify_tail n = n"
    using a
    by (simp add: prettify_tail_def replace_absent rial_em_re_def rial_phase_re_def seqs_simps
        re_match_Grp_Lit_mismatch)
  have rial: "prettify_rial n = n"
    using a by (simp add: prettify_rial_def rial_re_def seqs_simps re_match_Lit_mismatch tail)
  have ofd: "prettify_openfloat_div n = n"
    using fp_ by (simp add: prettify_openfloat_div_def openfloat_div_re_def seqs_simps
        re_match_Lit_mismatch rial)
  have opf: "prettify_openfloat n = n"
    using fp_ by (simp add: prettify_openfloat_def openfloat_re_def seqs_simps
        re_match_Lit_mismatch ofd)
  have hf: "prettify_hardfloat n = n"
    using a by (simp add: prettify_hardfloat_def hardfloat_re_def seqs_simps
        re_match_Lit_mismatch opf)
  show "prettify_name n = n"
    using a
    by (simp add: prettify_name_def splitext_root_no_dot cfg_re_def seqs_simps
        re_match_Lit_mismatch hf)
qed

text \<open>
  C3 (amended). The normalizer is deterministic: in every sequence of calls, started on
  an empty cache, each call returns the value of the function body on its own argument,
  whatever was asked before. It is idempotent on canonical forms: a name without a dot
  that starts with none of \<open>CFG_FP_\<close>, \<open>FP\<close> and \<open>Rial\<close> and contains neither composite
  name is returned unchanged, so applying the normalizer to its own output returns that
  output unchanged whenever the output is such a name.
\<close>

theorem prettify_name_fixed_point:
  "cached_calls [] ns = map prettify_name ns \<and>
   (canonical n \<longrightarrow> prettify_name n = n) \<and>
   (canonical (prettify_name n) \<longrightarrow> prettify_name (prettify_name n) = prettify_name n)"
proof (intro conjI impI)
  show "cached_calls [] ns = map prettify_name ns"
    by (rule cached_calls_sound) simp
  show "prettify_name n = n" if "canonical n"
    using that by (rule canonical_fixed)
  show "prettify_name (prettify_name n) = prettify_name n" if "canonical (prettify_name n)"
    using that by (rule canonical_fixed)
qed

theorem prettify_name_fixed_point_witness:
  "prettify_name ''FPADD_8_24.sv'' = ''HardFloatADD_FP32'' \<and>
   canonical (prettify_name ''FPADD_8_24.sv'') \<and>
   prettify_name (prettify_name ''FPADD_8_24.sv'') = prettify_name ''FPADD_8_24.sv'' \<and>
   cached_calls [] [''FPADD_8_24.sv'', ''RialAddFP16'', ''FPADD_8_24.sv''] =
     [''HardFloatADD_FP32'', ''RialAdd_FP16'', ''HardFloatADD_FP32'']"
proof -
  have a: "prettify_name ''FPADD_8_24.sv'' = ''HardFloatADD_FP32''" by code_simp
  have b: "prettify_name ''RialAddFP16'' = ''RialAdd_FP16''" by code_simp
  have h: "canonical ''HardFloatADD_FP32''" by code_simp
  have i: "prettify_name (prettify_name ''FPADD_8_24.sv'') = prettify_name ''FPADD_8_24.sv''"
    using prettify_name_fixed_point [of "[]" "''FPADD_8_24.sv''"] a h by simp
  have c: "cached_calls [] [''FPADD_8_24.sv'', ''RialAddFP16'', ''FPADD_8_24.sv''] =
      map prettify_name [''FPADD_8_24.sv'', ''RialAddFP16'', ''FPADD_8_24.sv'']"
    using prettify_name_fixed_point
      [of "[''FPADD_8_24.sv'', ''RialAddFP16'', ''FPADD_8_24.sv'']" "[]"] by blast
  from a b h i c show ?thesis by simp
qed

text \<open>
  The claim as stated fails: the output \<open>RialAdd_FP16\<close> for \<open>RialAddFP16\<close> is changed
  when the normalizer is applied to it.
\<close>

theorem prettify_name_idempotent_counterexample:
  "prettify_name ''RialAddFP16'' = ''RialAdd_FP16'' \<and>
   prettify_name ''RialAdd_FP16'' = ''RialAdd__FP16'' \<and>
   prettify_name (prettify_name ''RialAddFP16'') \<noteq> prettify_name ''RialAddFP16''"
  by code_simp

section \<open>The pass over blocks guarded by the marker\<close>

text \<open>
  C4. On a well-formed input in which a guarded block holds a nested \<open>ifndef\<close> of the
  marker, the nested opening does not increment the depth (it stays 1 after the second
  line), the pass ends at depth \<open>-1\<close> instead of 0, and the body of the guarded block
  that follows is kept.
\<close>

theorem initial_reg_pass_nested_ifndef:
  "fst (initial_reg_pass (take 1 nested_ifndef_lines)) = 1 \<and>
   fst (initial_reg_pass (take 2 nested_ifndef_lines)) = 1 \<and>
   fst (initial_reg_pass (take 4 nested_ifndef_lines)) = - 1 \<and>
   initial_reg_pass nested_ifndef_lines = (- 1, [''  initial q = 0;'', ''assign y = q;''])"
  by code_simp


section \<open>The SystemVerilog top module\<close>

lemma skip_test: "list_ex (\<lambda>skip. contains skip (lower n)) skip_words = is_verification_name n"
  by (simp add: skip_words_def is_verification_name_def)

lemma collect_candidates_filter:
  "collect_candidates acc ms =
     acc @ filter (\<lambda>n. \<not> is_verification_name n) (map (\<lambda>m. grp m 1) ms)"
  by (induction ms arbitrary: acc) (simp_all add: skip_test)

lemma first_equal_mem:
  "first_equal base cs = (if base \<in> set cs then Some base else None)"
  by (induction cs) auto

text \<open>
  C5. For a file that can be read, \<open>get_top_module\<close> takes the declared module names,
  leaves out those that contain \<open>verification\<close>, \<open>assert\<close>, \<open>assume\<close>, \<open>cover\<close> or
  \<open>layer\<close> in any case, and returns the file's base name if it is among the rest, and
  otherwise the last of the rest (the base name when nothing is left).
\<close>

theorem get_top_module_prefers_base_else_last:
  assumes "read_file e fn = Some content"
    and "candidates = filter (\<lambda>n. \<not> is_verification_name n) (module_names content)"
  shows "get_top_module e fn =
           (if file_base fn \<in> set candidates then file_base fn
            else if candidates \<noteq> [] then last candidates
            else file_base fn)"
  using assms
  by (simp add: get_top_module_def Let_def collect_candidates_filter first_equal_mem
      module_names_def file_base_def)

theorem get_top_module_prefers_base_else_last_witness:
  "get_top_module (demo_env\<lparr>read_file := (\<lambda>f. Some three_modules)\<rparr>) ''generated/x/FP_add.sv'' = ''Top'' \<and>
   get_top_module (demo_env\<lparr>read_file := (\<lambda>f. Some three_modules)\<rparr>) ''generated/x/Sub.sv'' = ''Sub''"
proof -
  let ?e = "demo_env\<lparr>read_file := (\<lambda>f. Some three_modules)\<rparr>"
  have names: "filter (\<lambda>n. \<not> is_verification_name n) (module_names three_modules) = [''Sub'', ''Top'']"
    by code_simp
  have b1: "file_base ''generated/x/FP_add.sv'' = ''FP_add''" by code_simp
  have b2: "file_base ''generated/x/Sub.sv'' = ''Sub''" by code_simp
  have "get_top_module ?e ''generated/x/FP_add.sv'' = ''Top''"
    using get_top_module_prefers_base_else_last [of ?e "''generated/x/FP_add.sv''" three_modules, OF _ names [symmetric]]
    by (simp add: b1)
  moreover have "get_top_module ?e ''generated/x/Sub.sv'' = ''Sub''"
    using get_top_module_prefers_base_else_last [of ?e "''generated/x/Sub.sv''" three_modules, OF _ names [symmetric]]
    by (simp add: b2)
  ultimately show ?thesis by blast
qed


section \<open>The VHDL top entity\<close>

lemma next_word_nonempty:
  assumes "re_match next_word_re s = Some w"
  shows "grp w 1 \<noteq> []"
proof -
  let ?K = "rmatch (Seq (Grp 1 (Plus (Chr is_word))) Eps) Some"
  from assms have "rmatch (Seq (Star (Chr is_space)) (Seq (Grp 1 (Plus (Chr is_word))) Eps)) Some
      \<lparr>prev = None, rest = s, caps = []\<rparr> = Some w"
    by (simp only: re_match_def next_word_re_def seqs_simps)
  then have "star (length (rest \<lparr>prev = None, rest = s, caps = []\<rparr>)) (rmatch (Chr is_space)) ?K
      \<lparr>prev = None, rest = s, caps = []\<rparr> = Some w"
    by (simp only: rmatch.simps)
  then obtain st1 where k1: "?K st1 = Some w"
    using star_chr_result by blast
  let ?k2 = "\<lambda>st'. Some (st'\<lparr>caps := (1, take (length (rest st1) - length (rest st')) (rest st1)) # caps st'\<rparr>)"
  from k1 have "rmatch (Chr is_word) (rmatch (Star (Chr is_word)) ?k2) st1 = Some w"
    by (simp only: Plus_def rmatch.simps)
  then obtain c cs where st1: "rest st1 = c # cs"
    and k2': "rmatch (Star (Chr is_word)) ?k2 (st1\<lparr>prev := Some c, rest := cs\<rparr>) = Some w"
    by (auto split: list.splits if_splits)
  from k2' have k2: "star (length (rest (st1\<lparr>prev := Some c, rest := cs\<rparr>))) (rmatch (Chr is_word)) ?k2
      (st1\<lparr>prev := Some c, rest := cs\<rparr>) = Some w"
    by (simp only: rmatch.simps)
  from star_chr_result [OF k2] obtain st2 where
    len: "length (rest st2) \<le> length (rest (st1\<lparr>prev := Some c, rest := cs\<rparr>))"
    and w: "w = st2\<lparr>caps := (1, take (length (rest st1) - length (rest st2)) (rest st1)) # caps st2\<rparr>"
    by auto
  from w st1 len show ?thesis
    by (simp add: grp_def group_def Suc_diff_le)
qed

lemma word_after_nonempty: "x \<in> set (word_after m) \<Longrightarrow> x \<noteq> []"
  by (cases "re_match next_word_re (strip (rest m))")
     (auto simp: word_after_def dest: next_word_nonempty)

lemma scan_matches_words:
  "scan_matches l ms =
     (if concat (map word_after ms) = [] then l else Some (last (concat (map word_after ms))))"
  by (induction ms arbitrary: l) (auto simp: word_after_def split: option.splits)

lemma finditer_not_found: "\<not> found r s \<Longrightarrow> re_finditer r s = []"
  by (simp add: found_def re_search_def re_finditer_def finditer_from.simps [of r None s])

lemma scan_entity_lines_words:
  "scan_entity_lines l ls =
     (let ws = concat (map (\<lambda>line. concat (map word_after (re_finditer entity_re line))) ls)
      in if ws = [] then l else Some (last ws))"
proof (induction ls arbitrary: l)
  case Nil
  then show ?case by simp
next
  case (Cons line ls)
  show ?case
  proof (cases "found entity_re line")
    case True
    then show ?thesis by (simp add: Cons.IH scan_matches_words Let_def)
  next
    case False
    then show ?thesis by (simp add: Cons.IH finditer_not_found Let_def)
  qed
qed

lemma entity_words_nonempty: "x \<in> set (entity_words content) \<Longrightarrow> x \<noteq> []"
  by (auto simp: entity_words_def dest: word_after_nonempty)

lemma get_top_entity_last:
  "fst (get_top_entity e fn) =
     (case read_file e fn of
        None \<Rightarrow> None
      | Some content \<Rightarrow>
          if entity_words content = [] then None else Some (last (entity_words content)))"
proof (cases "read_file e fn")
  case None
  then show ?thesis by (simp add: get_top_entity_def)
next
  case (Some content)
  have "last (entity_words content) \<noteq> []" if "entity_words content \<noteq> []"
    using that entity_words_nonempty [of "last (entity_words content)" content] by simp
  with Some show ?thesis
    by (simp add: get_top_entity_def scan_entity_lines_words Let_def truthy_def
        entity_words_def [symmetric])
qed

lemma tool_runs_append: "tool_runs (xs @ ys) = tool_runs xs @ tool_runs ys"
  by (simp add: tool_runs_def)

lemma get_top_entity_no_runs: "tool_runs (snd (get_top_entity e fn)) = []"
  by (simp add: get_top_entity_def tool_runs_def Let_def split: option.splits)

text \<open>
  What the resolver returns is the last word found after an \<open>entity\<close> keyword, and a
  word that is not empty; without one, \<open>yosys\<close> returns \<open>(0, 0)\<close> and runs no tool; with
  one, the only tool run elaborates that word.
\<close>

lemma get_top_entity_truthy: "fst (get_top_entity e fn) = Some t \<Longrightarrow> truthy (Some t)"
  by (auto simp: get_top_entity_def Let_def split: option.splits if_splits)

lemma yosys_vhdl_no_entity:
  assumes "endswith fn ''.vhdl''" and none: "fst (get_top_entity e fn) = None"
  shows "fst (yosys e fn) = (0, 0) \<and> tool_runs (snd (yosys e fn)) = []"
proof -
  obtain t evs where g: "get_top_entity e fn = (t, evs)" by (cases "get_top_entity e fn")
  with none have t: "t = None" by simp
  from g have "tool_runs evs = []" using get_top_entity_no_runs [of e fn] by simp
  with assms g t show ?thesis
    by (simp add: yosys_def truthy_def tool_runs_append) (simp add: tool_runs_def)
qed

lemma run_and_parse_runs:
  "write_ok e (''tmp_'' @ pid e @ ''.ys'') \<Longrightarrow>
   tool_runs (snd (run_and_parse e fn True cmd evs)) =
     tool_runs evs @ [[''yosys'', ''-m'', ''ghdl'', ''-p'', cmd]]"
  by (simp add: run_and_parse_def Let_def tool_runs_append split: tool_outcome.splits)
     (simp add: tool_runs_def)

lemma yosys_vhdl_elaborates_entity:
  assumes "endswith fn ''.vhdl''" and some: "fst (get_top_entity e fn) = Some t"
    and "write_ok e (''tmp_'' @ pid e @ ''.ys'')"
  shows "tool_runs (snd (yosys e fn)) =
    [[''yosys'', ''-m'', ''ghdl'', ''-p'',
      ''ghdl --std=08 -fsynopsys '' @ fn @ '' -e '' @ t @ ''; synth; stat'']]"
proof -
  obtain t' evs where g: "get_top_entity e fn = (t', evs)" by (cases "get_top_entity e fn")
  with some have t: "t' = Some t" by simp
  from g have r: "tool_runs evs = []" using get_top_entity_no_runs [of e fn] by simp
  from some have "truthy (Some t)" by (rule get_top_entity_truthy)
  with assms g t r show ?thesis
    by (simp add: yosys_def run_and_parse_runs tool_runs_append) (simp add: tool_runs_def)
qed

text \<open>
  C6. The comments of \<open>get_top_entity\<close> speak of entity declarations, but the scan
  takes the word after every \<open>entity\<close> keyword, declaration or not. The design
  \<open>top_design_lines\<close> declares one entity, \<open>top\<close>, and after its first four lines the
  resolver holds \<open>top\<close>; the instantiation \<open>entity work.adder\<close> in the architecture then
  replaces it by the library name \<open>work\<close>, and \<open>yosys\<close> lets the tool elaborate \<open>work\<close>.
\<close>

theorem get_top_entity_instantiation_not_declaration:
  "declared_entities (join [newline] top_design_lines) = [''top''] \<and>
   fst (get_top_entity (design_env (take 4 top_design_lines)) ''top.vhdl'') = Some ''top'' \<and>
   fst (get_top_entity (design_env top_design_lines) ''top.vhdl'') = Some ''work'' \<and>
   tool_runs (snd (yosys (design_env top_design_lines) ''top.vhdl'')) =
     [[''yosys'', ''-m'', ''ghdl'', ''-p'',
       ''ghdl --std=08 -fsynopsys top.vhdl -e work; synth; stat'']]"
  by code_simp

section \<open>Hoisting a declaration out of a clocked block\<close>

lemma space_chars:
  assumes "is_space c"
  shows "c \<noteq> CHR ''/''" "c \<noteq> CHR ''=''" "c \<noteq> CHR '';''" "c \<noteq> CHR ''b''" "c \<noteq> CHR ''e''"
    "c \<noteq> CHR ''l''" "\<not> is_word c"
  using assms by (auto simp: is_space_def is_word_def)

lemma decl_no_begin:
  assumes "\<forall>c\<in>set ws. is_space c"
  shows "\<not> found begin_re (before_sep ''//'' (ws @ decl_text))"
proof -
  have b: "before_sep ''//'' (ws @ decl_text) = ws @ decl_text"
    using assms by (simp add: before_sep_skip space_chars) (simp add: decl_text_def)
  have "search_from begin_re None (ws @ decl_text)
      = search_from begin_re (if ws = [] then None else Some (last ws)) decl_text"
    using assms
    by (intro search_from_skip) (auto simp: begin_re_def seqs_simps Lit_simps space_chars)
  also have "\<dots> = None"
  proof (cases "ws = []")
    case True
    then show ?thesis by (simp add: decl_text_def begin_re_def seqs_simps Lit_simps at_boundary_def is_word_def)
  next
    case False
    then have "is_space (last ws)" using assms by simp
    then have "\<not> is_word (last ws)" by (rule space_chars)
    with False show ?thesis
      by (simp add: decl_text_def begin_re_def seqs_simps Lit_simps at_boundary_def is_word_def)
  qed
  finally show ?thesis by (simp add: found_def re_search_def b)
qed

lemma decl_no_end:
  assumes "\<forall>c\<in>set ws. is_space c"
  shows "\<not> has_end (ws @ decl_text)"
proof -
  have b: "before_sep ''//'' (ws @ decl_text) = ws @ decl_text"
    using assms by (simp add: before_sep_skip space_chars) (simp add: decl_text_def)
  have "search_from end_re None (ws @ decl_text)
      = search_from end_re (if ws = [] then None else Some (last ws)) decl_text"
    using assms
    by (intro search_from_skip) (auto simp: end_re_def seqs_simps Lit_simps space_chars)
  also have "\<dots> = None"
  proof (cases "ws = []")
    case True
    then show ?thesis by (simp add: decl_text_def end_re_def seqs_simps Lit_simps at_boundary_def is_word_def)
  next
    case False
    then have "is_space (last ws)" using assms by simp
    then have "\<not> is_word (last ws)" by (rule space_chars)
    with False show ?thesis
      by (simp add: decl_text_def end_re_def seqs_simps Lit_simps at_boundary_def is_word_def)
  qed
  finally show ?thesis by (simp add: has_end_def found_def re_search_def b)
qed

lemma decl_depth:
  "\<forall>c\<in>set ws. is_space c \<Longrightarrow> depth_after_begin d (ws @ decl_text) = d"
  by (simp add: depth_after_begin_def decl_no_begin)

lemma decl_match:
  assumes "\<forall>c\<in>set ws. is_space c"
  shows "re_match logic_re (ws @ decl_text) =
    Some \<lparr>prev = Some (CHR '';''), rest = [],
          caps = [(4, ''a + b;''), (3, ''tmp''), (2, ''[7:0] ''), (1, ws)]\<rparr>"
proof -
  let ?tail = "seqs [Lit ''logic'', Plus (Chr is_space),
           Opt (Grp 2 (seqs [Lit ''['', Plus (Chr (\<lambda>c. c \<noteq> CHR '']'')), Lit '']'',
                             Plus (Chr is_space)])),
           Grp 3 (Plus (Chr is_word)), Star (Chr is_space), Lit ''='', Star (Chr is_space),
           Grp 4 (Star (Chr (\<lambda>c. c \<noteq> newline))), Eol]"
  let ?st0 = "\<lparr>prev = None, rest = ws @ decl_text, caps = []\<rparr>"
  let ?k = "\<lambda>st'. rmatch ?tail Some
      (st'\<lparr>caps := (1, take (length (rest ?st0) - length (rest st')) (rest ?st0)) # caps st'\<rparr>)"
  let ?res = "\<lparr>prev = Some (CHR '';''), rest = [],
          caps = [(4, ''a + b;''), (3, ''tmp''), (2, ''[7:0] ''), (1, ws)]\<rparr>"
  have k: "?k \<lparr>prev = (if ws = [] then None else Some (last ws)), rest = decl_text, caps = []\<rparr> = Some ?res"
    by (simp add: decl_text_def seqs_simps Lit_simps Plus_def Opt_def is_space_def is_word_def newline_def)
  have "rmatch (Star (Chr is_space)) ?k ?st0 = Some ?res"
  proof (rule rmatch_Star_chr_greedy [where ws = ws and s = decl_text and p = None and k = ?k])
    show "\<forall>c\<in>set ws. is_space c" by (rule assms)
    show "decl_text = [] \<or> \<not> is_space (hd decl_text)"
      by (simp add: decl_text_def is_space_def)
    show "?k \<lparr>prev = (if ws = [] then None else Some (last ws)), rest = decl_text, caps = []\<rparr> = Some ?res"
      by (rule k)
  qed
  moreover have "re_match logic_re (ws @ decl_text) = rmatch (Star (Chr is_space)) ?k ?st0"
    unfolding re_match_def logic_re_def
    apply (subst seqs_simps(2))
    apply (subst seqs_simps(2))
    apply (simp only: rmatch.simps(3) rmatch.simps(6) rmatch.simps(7) mstate.simps if_True simp_thms)
    done
  ultimately show ?thesis by simp
qed

lemma decl_find_eq:
  assumes "\<forall>c\<in>set ws. is_space c"
  shows "find_char (CHR ''='') (ws @ decl_text) = int (length ws) + 16"
proof -
  have notin: "CHR ''='' \<notin> set ws" using assms space_chars(2) by blast
  have s: "find_from (0 + length ws) (CHR ''='') decl_text =
      (if find_from 0 (CHR ''='') decl_text = - 1 then - 1
       else int (0 + length ws) + find_from 0 (CHR ''='') decl_text)"
    by (rule find_from_shift)
  have v: "find_from 0 (CHR ''='') decl_text = 16" by (simp add: decl_text_def)
  show ?thesis
    unfolding find_char_def find_from_skip [OF notin] s v by simp
qed

lemma decl_rfind_semi: "rfind_char (CHR '';'') (ws @ decl_text) = int (length ws) + 23"
proof -
  have e: "ws @ decl_text = (ws @ ''logic [7:0] tmp = a + b'') @ [CHR '';'']"
    by (simp add: decl_text_def)
  show ?thesis by (subst e, subst rfind_char_last) simp
qed

lemma decl_slice: "slice (ws @ decl_text) (length ws + 17) (length ws + 23) = '' a + b''"
  by (simp add: slice_def decl_text_def)

lemma decl_rhs: "join '' '' (split_ws [] (strip '' a + b'')) = ''a + b''"
  by code_simp

lemma decl_wire:
  assumes "\<forall>c\<in>set ws. is_space c"
  shows "wire_of indent ''[7:0] '' ''tmp'' (ws @ decl_text) = Some (indent @ ''wire [7:0] tmp = a + b;'')"
proof -
  have n1: "nat (int (length ws) + 16 + 1) = length ws + 17" by simp
  have n2: "nat (int (length ws) + 23) = length ws + 23" by simp
  have ne: "int (length ws) + 16 \<noteq> - 1" "int (length ws) + 23 \<noteq> - 1" by simp_all
  show ?thesis
    unfolding wire_of_def Let_def decl_find_eq [OF assms] decl_rfind_semi n1 n2 decl_slice decl_rhs
    using ne by simp
qed

lemma decl_statement:
  assumes "\<forall>c\<in>set ws. is_space c" and "re_match logic_re (ws @ decl_text) = Some m"
  shows "take_statement indent m (ws @ decl_text) ls = (Some (indent @ ''wire [7:0] tmp = a + b;''), ls)"
proof -
  from assms have m: "grp m 2 = ''[7:0] ''" "grp m 3 = ''tmp''" "grp m 4 = ''a + b;''"
    by (auto simp: decl_match grp_def group_def)
  have g: "gather ''a + b;'' ls = ([], ls)" by (cases ls) simp_all
  show ?thesis by (simp add: take_statement_def m g decl_wire [OF assms(1)])
qed

lemma gather_within_gather:
  "gather_within rhs seg = Some (stmt, left) \<Longrightarrow> gather rhs (seg @ ls) = (stmt, left @ ls)"
proof (induction rhs seg arbitrary: stmt left rule: gather_within.induct)
  case (1 rhs)
  then show ?case by (cases ls) (auto split: if_splits)
next
  case (2 rhs l ls')
  then show ?case by (auto split: if_splits option.splits)
qed

lemma scan_lines_depth:
  "scan_lines indent seg (d, h, e) = Some (d', h', e') \<Longrightarrow> d > 0 \<Longrightarrow> d' > 0"
proof (induction indent seg "(d, h, e)" arbitrary: d h e rule: scan_lines.induct)
  case (1 indent)
  then show ?case by simp
next
  case (2 indent cur ls depth hoisted kept)
  have db: "depth_after_begin depth cur \<ge> depth"
    by (simp add: depth_after_begin_def)
  from "2.prems" "2.hyps" db show ?case
    by (auto split: if_splits option.splits prod.splits)
qed

lemma scan_block_segment:
  "scan_lines indent seg (d, h, e) = Some (d', h', e') \<Longrightarrow> d > 0 \<Longrightarrow>
   scan_block indent start (seg @ ls) d h (out @ e) = scan_block indent start ls d' h' (out @ e')"
proof (induction indent seg "(d, h, e)" arbitrary: d h e rule: scan_lines.induct)
  case (1 indent)
  then show ?case by simp
next
  case (2 indent cur seg depth hoisted kept)
  note pos = \<open>depth > 0\<close>
  have db: "depth_after_begin depth cur \<ge> depth"
    by (simp add: depth_after_begin_def)
  show ?case
  proof (cases "has_end cur")
    case True
    with "2.prems" pos have ne: "depth_after_begin depth cur - 1 \<noteq> 0"
      and r: "scan_lines indent seg (depth_after_begin depth cur - 1, hoisted, kept @ [cur]) = Some (d', h', e')"
      by (auto split: if_splits)
    from ne db pos have "depth_after_begin depth cur - 1 > 0" by simp
    from "2.hyps"(1) [OF _ True ne r this] pos
    have "scan_block indent start (seg @ ls) (depth_after_begin depth cur - 1) hoisted (out @ kept @ [cur])
        = scan_block indent start ls d' h' (out @ e')" by simp
    with True ne pos show ?thesis by simp
  next
    case noend: False
    show ?thesis
    proof (cases "re_match logic_re cur")
      case None
      with "2.prems" pos noend
      have r: "scan_lines indent seg (depth_after_begin depth cur, hoisted, kept @ [cur]) = Some (d', h', e')"
        by simp
      from db pos have "depth_after_begin depth cur > 0" by simp
      from "2.hyps"(2) [OF _ noend None r this] pos
      have "scan_block indent start (seg @ ls) (depth_after_begin depth cur) hoisted (out @ kept @ [cur])
        = scan_block indent start ls d' h' (out @ e')" by simp
      with None noend pos show ?thesis by simp
    next
      case (Some m)
      with "2.prems" pos noend obtain stmt left where
        g: "gather_within (grp m 4) seg = Some (stmt, left)"
        and r: "scan_lines indent left
                    (depth_after_begin depth cur,
                     (case wire_of indent (grp m 2) (grp m 3) (join [newline] (cur # stmt)) of
                        Some w \<Rightarrow> hoisted @ [w] | None \<Rightarrow> hoisted),
                     kept) = Some (d', h', e')"
        by (auto split: option.splits)
      from db pos have dpos: "depth_after_begin depth cur > 0" by simp
      from "2.hyps"(3) [OF _ noend Some g refl r dpos] pos
      have IH: "scan_block indent start (left @ ls) (depth_after_begin depth cur)
          (case wire_of indent (grp m 2) (grp m 3) (join [newline] (cur # stmt)) of
                        Some w \<Rightarrow> hoisted @ [w] | None \<Rightarrow> hoisted) (out @ kept)
        = scan_block indent start ls d' h' (out @ e')" by simp
      have ts: "take_statement indent m cur (seg @ ls) =
          (wire_of indent (grp m 2) (grp m 3) (join [newline] (cur # stmt)), left @ ls)"
        by (simp add: take_statement_def gather_within_gather [OF g])
      from Some noend pos dpos ts IH show ?thesis by simp
    qed
  qed
qed

lemma scan_lines_extends:
  "scan_lines indent seg (d, h, e) = Some (d', h', e') \<Longrightarrow>
   \<exists>hx ex. h' = h @ hx \<and> e' = e @ ex \<and> (\<forall>l\<in>set ex. has_end l \<or> re_match logic_re l = None)"
proof (induction indent seg "(d, h, e)" arbitrary: d h e rule: scan_lines.induct)
  case (1 indent)
  then show ?case by simp
next
  case (2 indent cur seg depth hoisted kept)
  show ?case
  proof (cases "has_end cur")
    case True
    with "2.prems" have ne: "depth_after_begin depth cur - 1 \<noteq> 0" and pos: "depth > 0"
      and r: "scan_lines indent seg (depth_after_begin depth cur - 1, hoisted, kept @ [cur]) = Some (d', h', e')"
      by (auto split: if_splits)
    from "2.hyps"(1) [OF _ True ne r] pos obtain hx ex where
      "h' = hoisted @ hx" "e' = (kept @ [cur]) @ ex"
      "\<forall>l\<in>set ex. has_end l \<or> re_match logic_re l = None" by auto
    with True show ?thesis by (intro exI [of _ hx] exI [of _ "cur # ex"]) simp
  next
    case noend: False
    show ?thesis
    proof (cases "re_match logic_re cur")
      case None
      with "2.prems" noend have pos: "depth > 0"
        and r: "scan_lines indent seg (depth_after_begin depth cur, hoisted, kept @ [cur]) = Some (d', h', e')"
        by (auto split: if_splits)
      from "2.hyps"(2) [OF _ noend None r] pos obtain hx ex where
        "h' = hoisted @ hx" "e' = (kept @ [cur]) @ ex"
        "\<forall>l\<in>set ex. has_end l \<or> re_match logic_re l = None" by auto
      with None show ?thesis by (intro exI [of _ hx] exI [of _ "cur # ex"]) simp
    next
      case (Some m)
      with "2.prems" noend obtain stmt left where pos: "depth > 0"
        and g: "gather_within (grp m 4) seg = Some (stmt, left)"
        and r: "scan_lines indent left
                    (depth_after_begin depth cur,
                     (case wire_of indent (grp m 2) (grp m 3) (join [newline] (cur # stmt)) of
                        Some w \<Rightarrow> hoisted @ [w] | None \<Rightarrow> hoisted),
                     kept) = Some (d', h', e')"
        by (auto split: option.splits if_splits)
      from "2.hyps"(3) [OF _ noend Some g refl r] pos obtain hx ex where
        hx: "h' = (case wire_of indent (grp m 2) (grp m 3) (join [newline] (cur # stmt)) of
                        Some w \<Rightarrow> hoisted @ [w] | None \<Rightarrow> hoisted) @ hx"
        and ex: "e' = kept @ ex" "\<forall>l\<in>set ex. has_end l \<or> re_match logic_re l = None" by auto
      from hx have "\<exists>hy. h' = hoisted @ hy" by (auto split: option.splits)
      with ex show ?thesis by auto
    qed
  qed
qed

lemma list_insert_shift: "list_insert (length a + k) w (a @ xs) = a @ list_insert k w xs"
  by (simp add: list_insert_def)

lemma insert_hoisted_shift: "insert_hoisted (length a + k) h (a @ xs) = a @ insert_hoisted k h xs"
proof (induction h arbitrary: k xs)
  case Nil
  show ?case by simp
next
  case (Cons w h)
  have "insert_hoisted (length a + k) (w # h) (a @ xs) = insert_hoisted (length a + (k + 1)) h (a @ list_insert k w xs)"
    by (simp add: list_insert_shift add.assoc)
  also have "\<dots> = a @ insert_hoisted (k + 1) h (list_insert k w xs)"
    by (rule Cons.IH)
  finally show ?case by simp
qed

lemma insert_hoisted_front: "insert_hoisted (length a) h (a @ xs) = a @ h @ xs"
proof (induction h arbitrary: a)
  case Nil
  show ?case by simp
next
  case (Cons w h)
  have "insert_hoisted (length a) (w # h) (a @ xs) = insert_hoisted (length (a @ [w])) h ((a @ [w]) @ xs)"
    by (simp add: list_insert_def)
  also have "\<dots> = (a @ [w]) @ h @ xs" by (rule Cons.IH)
  finally show ?case by simp
qed

lemma scan_block_shift:
  "scan_block indent (length a + k) ls d h (a @ out) =
     (case scan_block indent k ls d h out of (left, x) \<Rightarrow> (left, a @ x))"
proof (induction indent k ls d h out rule: scan_block.induct)
  case (1 indent always_start depth hoisted out)
  show ?case by simp
next
  case (2 indent always_start cur ls depth hoisted out)
  show ?case
  proof (cases "depth > 0")
    case False
    then show ?thesis by simp
  next
    case pos: True
    show ?thesis
    proof (cases "has_end cur")
      case True
      with pos "2.IH" show ?thesis by (simp add: insert_hoisted_shift)
    next
      case noend: False
      show ?thesis
      proof (cases "re_match logic_re cur")
        case None
        with pos noend "2.IH" show ?thesis by simp
      next
        case (Some m)
        show ?thesis
        proof (cases "depth_after_begin depth cur \<ge> 1")
          case False
          with pos noend Some "2.IH" show ?thesis by simp
        next
          case True
          obtain wire left where ts: "take_statement indent m cur ls = (wire, left)"
            by (cases "take_statement indent m cur ls")
          with pos noend Some True "2.IH" show ?thesis by simp
        qed
      qed
    qed
  qed
qed

lemma hoist_lines_prefix: "hoist_lines ls (a @ out) = a @ hoist_lines ls out"
proof (induction ls out rule: hoist_lines.induct)
  case (1 out)
  show ?case by simp
next
  case (2 line ls out)
  show ?case
  proof (cases "re_match always_re line")
    case None
    with "2.IH" show ?thesis by simp
  next
    case (Some m)
    obtain left x where sb: "scan_block (grp m 1) (length out) ls 1 [] (out @ [line]) = (left, x)"
      by (cases "scan_block (grp m 1) (length out) ls 1 [] (out @ [line])")
    have "scan_block (grp m 1) (length a + length out) ls 1 [] (a @ out @ [line]) = (left, a @ x)"
      using sb by (simp add: scan_block_shift)
    with Some sb "2.IH"(2) [OF Some sb [symmetric]] show ?thesis by simp
  qed
qed

lemma hoist_lines_no_always:
  "\<forall>l\<in>set pre. re_match always_re l = None \<Longrightarrow>
   hoist_lines (pre @ ls) out = hoist_lines ls (out @ pre)"
  by (induction pre arbitrary: out) simp_all

lemma scan_block_closing:
  "d > 0 \<Longrightarrow> has_end closing \<Longrightarrow> depth_after_begin d closing - 1 = 0 \<Longrightarrow>
   scan_block indent start (closing # post) d h out = (post, insert_hoisted start h out @ [closing])"
  by simp

lemma scan_block_decl:
  assumes "d > 0" and "\<forall>c\<in>set ws. is_space c"
  shows "scan_block indent start ((ws @ decl_text) # ls) d h out =
         scan_block indent start ls d (h @ [indent @ ''wire [7:0] tmp = a + b;'']) out"
proof -
  obtain m where m: "re_match logic_re (ws @ decl_text) = Some m"
    using decl_match [OF assms(2)] by simp
  show ?thesis
    using assms(1) m decl_no_end [OF assms(2)] decl_depth [OF assms(2), of d]
      decl_statement [OF assms(2) m, of indent ls]
    by simp
qed

text \<open>
  Let the outer loop reach the header \<open>hdr\<close> of a clocked block (a line that
  \<open>always_re\<close> matches, with indentation \<open>grp mh 1\<close>), and let the inner loop read the
  lines \<open>b1\<close>, the declaration \<open>logic [7:0] tmp = a + b;\<close> on a line of its own
  (indented by any whitespace \<open>ws\<close>) and the lines \<open>b2\<close> inside the block, and close
  the block at the line \<open>closing\<close>. Then the output holds the hoisted lines \<open>h2\<close>
  immediately before the header, \<open>h2\<close> lists the hoisted declarations in source order
  (those of \<open>b1\<close>, then \<open>wire [7:0] tmp = a + b;\<close> with the header's indentation, then
  those of \<open>b2\<close>), and the declaration line is not among the lines kept in the block.
  The lines before the header are unchanged when none of them opens a block.
\<close>

lemma hoist_lines_delimited_block:
  assumes hdr: "re_match always_re hdr = Some mh"
    and b1: "scan_lines (grp mh 1) b1 (1, [], []) = Some (d1, h1, e1)"
    and ws: "\<forall>c\<in>set ws. is_space c"
    and b2: "scan_lines (grp mh 1) b2
               (d1, h1 @ [grp mh 1 @ ''wire [7:0] tmp = a + b;''], e1) = Some (d2, h2, e2)"
    and closing: "has_end closing" "depth_after_begin d2 closing - 1 = 0"
  shows "hoist_lines (hdr # b1 @ (ws @ ''logic [7:0] tmp = a + b;'') # b2 @ closing # post) out =
           out @ h2 @ hdr # e2 @ closing # hoist_lines post [] \<and>
         (\<exists>h'. h2 = h1 @ (grp mh 1 @ ''wire [7:0] tmp = a + b;'') # h') \<and>
         (ws @ ''logic [7:0] tmp = a + b;'') \<notin> set e2 \<and>
         (\<forall>pre. (\<forall>l\<in>set pre. re_match always_re l = None) \<longrightarrow>
            hoist_lines (pre @ hdr # b1 @ (ws @ ''logic [7:0] tmp = a + b;'') # b2 @ closing # post) [] =
              pre @ h2 @ hdr # e2 @ closing # hoist_lines post [])"
proof -
  let ?ind = "grp mh 1"
  let ?wire = "?ind @ ''wire [7:0] tmp = a + b;''"
  let ?decl = "ws @ decl_text"
  have d1: "d1 > 0" using scan_lines_depth [OF b1] by simp
  have d2: "d2 > 0" using scan_lines_depth [OF b2 d1] .
  have block: "scan_block ?ind (length o0) (b1 @ ?decl # b2 @ closing # post) 1 [] (o0 @ [hdr]) =
      (post, o0 @ h2 @ hdr # e2 @ [closing])" for o0
  proof -
    have "scan_block ?ind (length o0) (b1 @ ?decl # b2 @ closing # post) 1 [] ((o0 @ [hdr]) @ []) =
        scan_block ?ind (length o0) (?decl # b2 @ closing # post) d1 h1 ((o0 @ [hdr]) @ e1)"
      by (rule scan_block_segment [OF b1]) simp
    also have "\<dots> = scan_block ?ind (length o0) (b2 @ closing # post) d1 (h1 @ [?wire]) ((o0 @ [hdr]) @ e1)"
      by (rule scan_block_decl [OF d1 ws])
    also have "\<dots> = scan_block ?ind (length o0) (closing # post) d2 h2 ((o0 @ [hdr]) @ e2)"
      by (rule scan_block_segment [OF b2 d1])
    also have "\<dots> = (post, insert_hoisted (length o0) h2 ((o0 @ [hdr]) @ e2) @ [closing])"
      by (rule scan_block_closing [OF d2 closing])
    also have "insert_hoisted (length o0) h2 ((o0 @ [hdr]) @ e2) = o0 @ h2 @ hdr # e2"
      using insert_hoisted_front [of o0 h2 "hdr # e2"] by simp
    finally show ?thesis by simp
  qed
  have main: "hoist_lines (hdr # b1 @ ?decl # b2 @ closing # post) o0 =
      o0 @ h2 @ hdr # e2 @ closing # hoist_lines post []" for o0
    using hdr block [of o0] hoist_lines_prefix [of post "o0 @ h2 @ hdr # e2 @ [closing]" "[]"]
    by simp
  from scan_lines_extends [OF b2] obtain h' ex2 where
    h2: "h2 = (h1 @ [?wire]) @ h'" and e2: "e2 = e1 @ ex2"
    and k2: "\<forall>l\<in>set ex2. has_end l \<or> re_match logic_re l = None" by blast
  from scan_lines_extends [OF b1] obtain ex1 where
    e1: "e1 = [] @ ex1" and k1: "\<forall>l\<in>set ex1. has_end l \<or> re_match logic_re l = None" by blast
  have notin: "?decl \<notin> set e2"
    using e1 e2 k1 k2 decl_no_end [OF ws] decl_match [OF ws] by auto
  have first: "hoist_lines (pre @ hdr # b1 @ ?decl # b2 @ closing # post) [] =
      pre @ h2 @ hdr # e2 @ closing # hoist_lines post []"
    if "\<forall>l\<in>set pre. re_match always_re l = None" for pre
    using hoist_lines_no_always [OF that, of "hdr # b1 @ ?decl # b2 @ closing # post" "[]"] main [of pre]
    by simp
  from main [of out] h2 notin first show ?thesis
    by (simp add: decl_text_def)
qed

lemma hoist_lines_delimited_block_example:
  "hoist_lines
     [''module m;'', ''  always @(posedge clk) begin'', ''    logic en = x;'',
      ''    logic [7:0] tmp = a + b;'', ''    if (en) begin'', ''      q <= tmp;'', ''    end'',
      ''  end'', ''endmodule''] [] =
     [''module m;'', ''  wire en = x;'', ''  wire [7:0] tmp = a + b;'',
      ''  always @(posedge clk) begin'', ''    if (en) begin'', ''      q <= tmp;'', ''    end'',
      ''  end'', ''endmodule'']"
proof -
  let ?mh = "\<lparr>prev = Some (CHR ''n''), rest = [], caps = [(1, ''  '')]\<rparr>"
  let ?b2 = "[''    if (en) begin'', ''      q <= tmp;'', ''    end'']"
  have ind: "grp ?mh 1 = ''  ''" by (simp add: grp_def group_def)
  have hdr: "re_match always_re ''  always @(posedge clk) begin'' = Some ?mh"
    by code_simp
  have b1: "scan_lines (grp ?mh 1) [''    logic en = x;''] (1, [], []) = Some (1, [''  wire en = x;''], [])"
    unfolding ind by code_simp
  have ws: "\<forall>c\<in>set ''    ''. is_space c" by code_simp
  have b2: "scan_lines (grp ?mh 1) ?b2
      (1, [''  wire en = x;''] @ [grp ?mh 1 @ ''wire [7:0] tmp = a + b;''], []) =
      Some (1, [''  wire en = x;'', ''  wire [7:0] tmp = a + b;''], ?b2)"
    unfolding ind by code_simp
  have c1: "has_end ''  end''" by code_simp
  have c2: "depth_after_begin 1 ''  end'' - 1 = 0" by code_simp
  have pre: "\<forall>l\<in>set [''module m;'']. re_match always_re l = None" by code_simp
  have post: "hoist_lines [''endmodule''] [] = [''endmodule'']" by code_simp
  note th = hoist_lines_delimited_block [OF hdr b1 ws b2 c1 c2, of "[''endmodule'']" "[]"]
  from th have "\<forall>pre. (\<forall>l\<in>set pre. re_match always_re l = None) \<longrightarrow>
            hoist_lines (pre @ ''  always @(posedge clk) begin'' # [''    logic en = x;''] @
              (''    '' @ ''logic [7:0] tmp = a + b;'') # ?b2 @ ''  end'' # [''endmodule'']) [] =
              pre @ [''  wire en = x;'', ''  wire [7:0] tmp = a + b;''] @
              ''  always @(posedge clk) begin'' # ?b2 @ ''  end'' # hoist_lines [''endmodule''] []"
    by blast
  from this [THEN spec, of "[''module m;'']"] pre post show ?thesis by simp
qed

text \<open>
  C7. The inner loop counts the words \<open>begin\<close> and \<open>end\<close> of a line after cutting a
  \<open>//\<close> comment off, but it does not cut string literals or block comments off: the
  word \<open>end\<close> in the message of a \<open>$display\<close> call, or in a block comment, lowers the
  depth, and the clocked block is taken to close before its own \<open>end\<close>. A declaration
  that follows inside the block is then left in place and no \<open>wire\<close> line is written.
  With another message the same blocks are rewritten as the docstring of the stage says:
  the \<open>wire\<close> line stands immediately before the block and the declaration line is gone,
  also behind a nested \<open>begin\<close> and \<open>end\<close>.
\<close>

theorem hoist_stops_at_end_in_string:
  "hoist_logic_from_always (join [newline] (clocked_block (display_line ''at end''))) =
     join [newline] (clocked_block (display_line ''at end'')) \<and>
   hoist_logic_from_always (join [newline] (clocked_block (display_line ''at finish''))) =
     join [newline] (hoisted_block (display_line ''at finish'')) \<and>
   hoist_logic_from_always (join [newline] (clocked_block ''  /* value at the end of the cycle */'')) =
     join [newline] (clocked_block ''  /* value at the end of the cycle */'') \<and>
   hoist_logic_from_always (join [newline] (nested_block ''at end'')) =
     join [newline] (nested_block ''at end'') \<and>
   hoist_logic_from_always (join [newline] (nested_block ''at finish'')) =
     join [newline] (hoisted_nested_block ''at finish'')"
  by code_simp

section \<open>The VHDL cell count is summed from the last marker on\<close>

lemma last_stats_loop_none:
  "\<forall>l\<in>set ls. \<not> has_marker l \<Longrightarrow> last_stats_loop k i ls = k"
  by (induction ls arbitrary: k i) (simp_all add: has_marker_def)

lemma last_stats_loop_last:
  "has_marker m \<Longrightarrow> \<forall>l\<in>set post. \<not> has_marker l \<Longrightarrow>
   last_stats_loop k i (pre @ m # post) = int (i + length pre)"
proof (induction pre arbitrary: k i)
  case Nil
  then show ?case by (simp add: last_stats_loop_none) (simp add: has_marker_def)
next
  case (Cons a pre)
  then show ?case by simp
qed

lemma total_cells_loop_sum:
  "total_cells_loop t ls = t + sum_list (map cell_count ls)"
  by (induction ls arbitrary: t) (simp_all add: cell_count_def split: option.splits)

text \<open>
  C8. \<open>sum_cell_counts\<close> returns 0 when no line holds the marker; otherwise, with \<open>m\<close>
  the last line that holds it, it returns the sum of the counts of \<open>m\<close> and the
  lines after it, whatever the lines before \<open>m\<close> are.
\<close>

theorem sum_cell_counts_from_last_marker:
  "((\<forall>l\<in>set (split_on newline (strip text)). \<not> has_marker l) \<longrightarrow> sum_cell_counts text = 0) \<and>
   (\<forall>pre m post.
      split_on newline (strip text) = pre @ m # post \<and> has_marker m \<and>
      (\<forall>l\<in>set post. \<not> has_marker l) \<longrightarrow>
      sum_cell_counts text = sum_list (map cell_count (m # post)))"
proof (intro conjI allI impI)
  assume "\<forall>l\<in>set (split_on newline (strip text)). \<not> has_marker l"
  then show "sum_cell_counts text = 0"
    by (simp add: sum_cell_counts_def Let_def last_stats_loop_none)
next
  fix pre m post
  assume a: "split_on newline (strip text) = pre @ m # post \<and> has_marker m \<and>
      (\<forall>l\<in>set post. \<not> has_marker l)"
  then have idx: "last_stats_loop (- 1) 0 (pre @ m # post) = int (length pre)"
    using last_stats_loop_last [of m post "- 1" 0 pre] by simp
  show "sum_cell_counts text = sum_list (map cell_count (m # post))"
    using a by (simp add: sum_cell_counts_def Let_def idx total_cells_loop_sum)
qed

theorem sum_cell_counts_from_last_marker_witness:
  "sum_cell_counts (join [newline]
     [''2. Printing statistics.'', ''   Number of cells:   7'', ''3. Printing statistics.'',
      ''=== top ==='', ''   Number of cells:  12'', ''=== sub ==='', ''   Number of cells: 3'', '''']) = 15"
proof -
  let ?text = "join [newline]
     [''2. Printing statistics.'', ''   Number of cells:   7'', ''3. Printing statistics.'',
      ''=== top ==='', ''   Number of cells:  12'', ''=== sub ==='', ''   Number of cells: 3'', '''']"
  let ?pre = "[''2. Printing statistics.'', ''   Number of cells:   7'']"
  let ?m = "''3. Printing statistics.''"
  let ?post = "[''=== top ==='', ''   Number of cells:  12'', ''=== sub ==='', ''   Number of cells: 3'']"
  have split: "split_on newline (strip ?text) = ?pre @ ?m # ?post"
    by code_simp
  have m: "has_marker ?m" by code_simp
  have post: "\<forall>l\<in>set ?post. \<not> has_marker l" by code_simp
  have "sum_cell_counts ?text = sum_list (map cell_count (?m # ?post))"
    using sum_cell_counts_from_last_marker [of ?text, THEN conjunct2, THEN spec, THEN spec, THEN spec, of ?pre ?m ?post]
      split m post by blast
  also have "\<dots> = 15" by code_simp
  finally show ?thesis .
qed


section \<open>Fallback to the original file when rewriting fails\<close>

lemma preprocess_none_iff: "fst (preprocess_sv_file e fn) = None \<longleftrightarrow> read_file e fn = None"
  by (simp add: preprocess_sv_file_def split: option.splits)

text \<open>
  C9 (amended). When the file cannot be read, \<open>preprocess_sv_file\<close> returns \<open>None\<close>. When it
  returns \<open>None\<close> for a file that is not VHDL and the command script can be written,
  \<open>yosys\<close> logs a warning, writes the script that reads the original path with
  \<open>read -sv\<close> (the rewritten file is read with \<open>read_verilog -sv\<close>), followed by the
  same \<open>hierarchy\<close>, \<open>proc\<close>, \<open>techmap\<close>, \<open>opt_clean\<close> and \<open>stat\<close> commands, and runs
  the tool on it; the call returns a metric pair.
\<close>

theorem sv_fallback_reads_original_file:
  "(read_file e fn = None \<longrightarrow> fst (preprocess_sv_file e fn) = None) \<and>
   (\<not> endswith fn ''.vhdl'' \<and> fst (preprocess_sv_file e fn) = None \<and>
    write_ok e (''tmp_'' @ pid e @ ''.ys'') \<longrightarrow>
    (\<exists>evs. snd (yosys e fn) =
       snd (preprocess_sv_file e fn) @
       [Log Warning (''Preprocessing failed for '' @ fn @ '', using original file''),
        WriteFile (''tmp_'' @ pid e @ ''.ys'')
          (sv_script ''read'' (abspath e fn) (get_top_module e fn)),
        RunTool [''yosys'', ''tmp_'' @ pid e @ ''.ys'']] @ evs))"
proof (intro conjI impI)
  assume "read_file e fn = None"
  then show "fst (preprocess_sv_file e fn) = None" by (simp add: preprocess_none_iff)
next
  assume a: "\<not> endswith fn ''.vhdl'' \<and> fst (preprocess_sv_file e fn) = None \<and>
    write_ok e (''tmp_'' @ pid e @ ''.ys'')"
  obtain r pevs where p: "preprocess_sv_file e fn = (r, pevs)"
    by (cases "preprocess_sv_file e fn")
  with a have r: "r = None" by simp
  show "\<exists>evs. snd (yosys e fn) =
       snd (preprocess_sv_file e fn) @
       [Log Warning (''Preprocessing failed for '' @ fn @ '', using original file''),
        WriteFile (''tmp_'' @ pid e @ ''.ys'')
          (sv_script ''read'' (abspath e fn) (get_top_module e fn)),
        RunTool [''yosys'', ''tmp_'' @ pid e @ ''.ys'']] @ evs"
    using a p r
    by (cases "run_tool e [''yosys'', ''tmp_'' @ pid e @ ''.ys'']")
       (simp_all add: yosys_def run_and_parse_def Let_def)
qed

theorem sv_fallback_reads_original_file_witness:
  "fst (yosys demo_env ''missing.sv'') = (397, 52) \<and>
   (\<exists>evs. snd (yosys demo_env ''missing.sv'') =
     [Log Error ''Error preprocessing missing.sv'', Log Debug ''Preprocessing traceback'',
      Log Warning ''Preprocessing failed for missing.sv, using original file'',
      WriteFile ''tmp_41.ys'' (sv_script ''read'' ''/work/missing.sv'' ''missing''),
      RunTool [''yosys'', ''tmp_41.ys'']] @ evs)"
proof -
  have v: "\<not> endswith ''missing.sv'' ''.vhdl''" by code_simp
  have r: "read_file demo_env ''missing.sv'' = None" by code_simp
  have w: "write_ok demo_env (''tmp_'' @ pid demo_env @ ''.ys'')" by code_simp
  note th = sv_fallback_reads_original_file [of demo_env "''missing.sv''"]
  from th r have n: "fst (preprocess_sv_file demo_env ''missing.sv'') = None" by blast
  have pe: "snd (preprocess_sv_file demo_env ''missing.sv'') =
      [Log Error ''Error preprocessing missing.sv'', Log Debug ''Preprocessing traceback'']"
    by code_simp
  have top: "get_top_module demo_env ''missing.sv'' = ''missing''" by code_simp
  have ap: "abspath demo_env ''missing.sv'' = ''/work/missing.sv''" by code_simp
  have pd: "pid demo_env = ''41''" by code_simp
  from th v n w have "\<exists>evs. snd (yosys demo_env ''missing.sv'') =
       snd (preprocess_sv_file demo_env ''missing.sv'') @
       [Log Warning (''Preprocessing failed for '' @ ''missing.sv'' @ '', using original file''),
        WriteFile (''tmp_'' @ pid demo_env @ ''.ys'')
          (sv_script ''read'' (abspath demo_env ''missing.sv'') (get_top_module demo_env ''missing.sv'')),
        RunTool [''yosys'', ''tmp_'' @ pid demo_env @ ''.ys'']] @ evs"
    by blast
  then have b: "\<exists>evs. snd (yosys demo_env ''missing.sv'') =
     [Log Error ''Error preprocessing missing.sv'', Log Debug ''Preprocessing traceback'',
      Log Warning ''Preprocessing failed for missing.sv, using original file'',
      WriteFile ''tmp_41.ys'' (sv_script ''read'' ''/work/missing.sv'' ''missing''),
      RunTool [''yosys'', ''tmp_41.ys'']] @ evs"
    by (simp add: pe top ap pd)
  have a: "fst (yosys demo_env ''missing.sv'') = (397, 52)" by code_simp
  from a b show ?thesis by blast
qed

text \<open>
  The claim as stated fails: the script of the rewritten path (\<open>read_verilog -sv\<close>),
  built against the original path, is not what the fallback writes.
\<close>

theorem sv_fallback_same_pipeline_counterexample:
  "fst (preprocess_sv_file demo_env ''missing.sv'') = None \<and>
   WriteFile ''tmp_41.ys'' (sv_script ''read_verilog'' ''/work/missing.sv'' ''missing'')
     \<notin> set (snd (yosys demo_env ''missing.sv''))"
  by code_simp


section \<open>The VHDL path never sets the wire bits\<close>

lemma run_and_parse_vhdl_wire_bits: "fst (fst (run_and_parse e fn True cmd evs)) = 0"
  by (simp add: run_and_parse_def Let_def split: tool_outcome.splits)

text \<open>
  C10. For a file whose name ends in \<open>.vhdl\<close>, the wire-bit count that \<open>yosys\<close>
  returns is 0, whatever the tool prints.
\<close>

theorem yosys_vhdl_wire_bits_zero:
  "endswith fn ''.vhdl'' \<Longrightarrow> fst (fst (yosys e fn)) = 0"
  by (simp add: yosys_def run_and_parse_vhdl_wire_bits split: prod.splits)

theorem yosys_vhdl_wire_bits_zero_witness:
  "fst (yosys demo_env ''adder.vhdl'') = (0, 52)"
proof -
  have v: "endswith ''adder.vhdl'' ''.vhdl''" by code_simp
  have a: "fst (fst (yosys demo_env ''adder.vhdl'')) = 0"
    using yosys_vhdl_wire_bits_zero [OF v] .
  have b: "snd (fst (yosys demo_env ''adder.vhdl'')) = 52" by code_simp
  from a b show ?thesis by (simp add: prod_eq_iff)
qed


end
